theory Spec2Isabelle
  imports Complex_Main "HOL-Library.Sublist"
begin

section \<open>Values of the program\<close>

text \<open>
  The exceptions that \<open>do_sync\<close> can raise. \<open>NonDictValute\<close> stands for the exception
  Python raises when the code iterates over a truthy \<open>Valute\<close> value that is not a dict and
  indexes it (a TypeError, an AttributeError or an IndexError, depending on the value).
\<close>

datatype error =
  ValueError | TypeError | AttributeError | OverflowError | JSONDecodeError | KeyError
  | UnboundLocalError | NonDictValute

text \<open>
  A decoded JSON value, as \<open>response.json()\<close> returns it. A dict is an association list in
  insertion order (its keys are distinct in every value Python builds); numbers are only
  passed through and tested for zero, so one constructor stands for int and float.
\<close>

datatype json =
  JNull | JBool bool | JNum real | JStr string | JArr "json list" | JObj "(string \<times> json) list"

type_synonym pydict = "(string \<times> json) list"

text \<open>\<open>k in d\<close>, \<open>d[k] = v\<close> (a new key goes last, an old key keeps its place) and the
  truth value of a decoded JSON value.\<close>

definition dict_keys :: "pydict \<Rightarrow> string list" where
  "dict_keys d = map fst d"

fun dict_set :: "pydict \<Rightarrow> string \<Rightarrow> json \<Rightarrow> pydict" where
  "dict_set [] k v = [(k, v)]"
| "dict_set ((k', v') # d) k v = (if k' = k then (k, v) # d else (k', v') # dict_set d k v)"

fun truthy :: "json \<Rightarrow> bool" where
  "truthy JNull = False"
| "truthy (JBool b) = b"
| "truthy (JNum x) = (x \<noteq> 0)"
| "truthy (JStr s) = (s \<noteq> [])"
| "truthy (JArr xs) = (xs \<noteq> [])"
| "truthy (JObj d) = (d \<noteq> [])"

text \<open>The method call \<open>x.get(k, default)\<close>: only a dict has the method.\<close>

fun get_method :: "json \<Rightarrow> string \<Rightarrow> json \<Rightarrow> error + json" where
  "get_method (JObj d) k dflt = Inr (case map_of d k of None \<Rightarrow> dflt | Some v \<Rightarrow> v)"
| "get_method _ k dflt = Inl AttributeError"

section \<open>The network and the trace of effects\<close>

text \<open>
  A \<open>requests.Response\<close>: the fields the code reads, and the result of \<open>response.json()\<close>
  (\<open>None\<close> when the body does not decode and the call raises).
\<close>

record response =
  status_code :: int
  resp_text :: string
  url :: string
  json_body :: "json option"

text \<open>One call of \<open>requests.request\<close> either raises (with a message) or gives a response.
  The network is given as what the \<open>k\<close>-th request of the run, to a given URL, meets.\<close>

datatype attempt = Raised string | Responded response

type_synonym network = "nat \<Rightarrow> string \<Rightarrow> attempt"

record run_state =
  date_start :: string
  date_stop :: string

datatype log_msg =
  ExceptionText string
  | SecondsBeforeNextRetry nat
  | ResponseURL string
  | ResponseStatusCode int
  | ResponseText string
  | FailedAfter nat
  | CurrenciesNotAList
  | CurrenciesSpecified "string list"
  | DateToProcess string
  | CompletedRows nat
  | NothingDone

datatype event =
  Sleep nat
  | HttpGet string
  | LogInfo log_msg
  | LogWarning log_msg
  | WriteSchema string json string
  | WriteRecords string "pydict list"
  | WriteState run_state

section \<open>Constants\<close>

definition ENDPOINT :: string where
  "ENDPOINT = ''https://www.cbr-xml-daily.ru//archive//DATE//daily_json.js''"

definition DATE_FORMAT :: string where
  "DATE_FORMAT = ''%Y-%m-%d''"

definition N_RETRIES :: nat where
  "N_RETRIES = 10"

definition DELAY_SECONDS :: nat where
  "DELAY_SECONDS = 10"

text \<open>The marker text of the source, a Cyrillic sentence, as its UTF-8 bytes.\<close>

definition MARKER :: string where
  "MARKER =
    [CHR 0xD0, CHR 0x9A, CHR 0xD1, CHR 0x83, CHR 0xD1, CHR 0x80, CHR 0xD1, CHR 0x81, CHR 0x20,
     CHR 0xD0, CHR 0xA6, CHR 0xD0, CHR 0x91, CHR 0x20, CHR 0xD0, CHR 0xA0, CHR 0xD0, CHR 0xA4,
     CHR 0x20, CHR 0xD0, CHR 0xBD, CHR 0xD0, CHR 0xB0, CHR 0x20, CHR 0xD0, CHR 0xB4, CHR 0xD0,
     CHR 0xB0, CHR 0xD0, CHR 0xBD, CHR 0xD0, CHR 0xBD, CHR 0xD1, CHR 0x83, CHR 0xD1, CHR 0x8E,
     CHR 0x20, CHR 0xD0, CHR 0xB4, CHR 0xD0, CHR 0xB0, CHR 0xD1, CHR 0x82, CHR 0xD1, CHR 0x83,
     CHR 0x20, CHR 0xD0, CHR 0xBD, CHR 0xD0, CHR 0xB5, CHR 0x20, CHR 0xD1, CHR 0x83, CHR 0xD1,
     CHR 0x81, CHR 0xD1, CHR 0x82, CHR 0xD0, CHR 0xB0, CHR 0xD0, CHR 0xBD, CHR 0xD0, CHR 0xBE,
     CHR 0xD0, CHR 0xB2, CHR 0xD0, CHR 0xBB, CHR 0xD0, CHR 0xB5, CHR 0xD0, CHR 0xBD, CHR 0x20,
     CHR 0xD0, CHR 0xB8, CHR 0xD0, CHR 0xBB, CHR 0xD0, CHR 0xB8, CHR 0x20, CHR 0xD1, CHR 0x83,
     CHR 0xD0, CHR 0xBA, CHR 0xD0, CHR 0xB0, CHR 0xD0, CHR 0xB7, CHR 0xD0, CHR 0xB0, CHR 0xD0,
     CHR 0xBD, CHR 0xD0, CHR 0xB0, CHR 0x20, CHR 0xD0, CHR 0xBE, CHR 0xD1, CHR 0x88, CHR 0xD0,
     CHR 0xB8, CHR 0xD0, CHR 0xB1, CHR 0xD0, CHR 0xBE, CHR 0xD1, CHR 0x87, CHR 0xD0, CHR 0xBD,
     CHR 0xD0, CHR 0xB0, CHR 0xD1, CHR 0x8F, CHR 0x20, CHR 0xD0, CHR 0xB4, CHR 0xD0, CHR 0xB0,
     CHR 0xD1, CHR 0x82, CHR 0xD0, CHR 0xB0, CHR 0x2E]"

text \<open>\<open>sub in s\<close> on strings: \<open>sub\<close> occurs in \<open>s\<close> as a contiguous run.\<close>

fun str_contains :: "string \<Rightarrow> string \<Rightarrow> bool" where
  "str_contains [] sub = (sub = [])"
| "str_contains (c # cs) sub = (prefix sub (c # cs) \<or> str_contains cs sub)"

section \<open>The fetcher: \<open>make_retry\<close>\<close>

text \<open>
  The \<open>for retry in range(n_retries)\<close> loop of \<open>make_retry\<close>, entered at index \<open>retry\<close>
  when \<open>k\<close> requests have been made. It gives the effects in order, the number of requests
  made afterwards, and the returned value (\<open>None\<close> for Python's \<open>None\<close>).
\<close>

function make_retry_loop ::
  "network \<Rightarrow> nat \<Rightarrow> string \<Rightarrow> nat \<Rightarrow> nat \<Rightarrow> nat \<Rightarrow> event list \<times> nat \<times> response option"
where
  "make_retry_loop net k u n_retries delay_seconds retry =
    (if retry < n_retries then
       (case net k u of
          Raised e \<Rightarrow>
            (let delay = delay_seconds * 2 ^ retry;
                 (tr, k', res) = make_retry_loop net (Suc k) u n_retries delay_seconds (Suc retry)
             in ([HttpGet u, LogInfo (ExceptionText e), LogInfo (SecondsBeforeNextRetry delay),
                  Sleep delay] @ tr, k', res))
        | Responded r \<Rightarrow>
            if status_code r \<noteq> 200 \<and> \<not> str_contains (resp_text r) MARKER then
              (let delay = delay_seconds * 2 ^ retry;
                   (tr, k', res) = make_retry_loop net (Suc k) u n_retries delay_seconds (Suc retry)
               in ([HttpGet u, LogInfo (ResponseURL (url r)),
                    LogInfo (ResponseStatusCode (status_code r)), LogInfo (ResponseText (resp_text r)),
                    LogInfo (SecondsBeforeNextRetry delay), Sleep delay] @ tr, k', res))
            else if str_contains (resp_text r) MARKER then
              ([HttpGet u, LogWarning (ResponseText (resp_text r))], Suc k, None)
            else ([HttpGet u], Suc k, Some r))
     else ([LogWarning (FailedAfter n_retries)], k, None))"
  by pat_completeness auto
termination
  by (relation "measure (\<lambda>(net, k, u, n_retries, delay_seconds, retry). n_retries - retry)") auto

declare make_retry_loop.simps [simp del]

definition make_retry ::
  "network \<Rightarrow> nat \<Rightarrow> string \<Rightarrow> nat \<Rightarrow> nat \<Rightarrow> event list \<times> nat \<times> response option"
where
  "make_retry net k u n_retries delay_seconds = make_retry_loop net k u n_retries delay_seconds 0"

section \<open>Calendar dates\<close>

text \<open>
  Python's \<open>datetime.date\<close>: a year from 1 to 9999, a month and a day of that month, in
  the proleptic Gregorian calendar. The helper functions are those of the \<open>datetime\<close>
  module.
\<close>

record date =
  year :: nat
  month :: nat
  day :: nat

definition MINYEAR :: nat where
  "MINYEAR = 1"

definition MAXYEAR :: nat where
  "MAXYEAR = 9999"

definition MAXORDINAL :: nat where
  "MAXORDINAL = 3652059"

definition is_leap :: "nat \<Rightarrow> bool" where
  "is_leap y = (y mod 4 = 0 \<and> (y mod 100 \<noteq> 0 \<or> y mod 400 = 0))"

definition days_in_month :: "nat \<Rightarrow> nat \<Rightarrow> nat" where
  "days_in_month y m =
    (if m = 2 then (if is_leap y then 29 else 28)
     else if m = 4 \<or> m = 6 \<or> m = 9 \<or> m = 11 then 30 else 31)"

definition days_before_year :: "nat \<Rightarrow> nat" where
  "days_before_year y = (let y' = y - 1 in y' * 365 + y' div 4 - y' div 100 + y' div 400)"

definition DAYS_BEFORE_MONTH :: "nat list" where
  "DAYS_BEFORE_MONTH = [0, 31, 59, 90, 120, 151, 181, 212, 243, 273, 304, 334]"

definition days_before_month :: "nat \<Rightarrow> nat \<Rightarrow> nat" where
  "days_before_month y m = DAYS_BEFORE_MONTH ! (m - 1) + (if m > 2 \<and> is_leap y then 1 else 0)"

definition valid_date :: "date \<Rightarrow> bool" where
  "valid_date d =
    (MINYEAR \<le> year d \<and> year d \<le> MAXYEAR \<and> 1 \<le> month d \<and> month d \<le> 12 \<and>
     1 \<le> day d \<and> day d \<le> days_in_month (year d) (month d))"

definition toordinal :: "date \<Rightarrow> nat" where
  "toordinal d = days_before_year (year d) + days_before_month (year d) (month d) + day d"

text \<open>\<open>a <= b\<close> and \<open>a < b\<close> on dates compare year, month and day in this order.\<close>

definition date_le :: "date \<Rightarrow> date \<Rightarrow> bool" where
  "date_le a b =
    (year a < year b \<or> (year a = year b \<and>
      (month a < month b \<or> (month a = month b \<and> day a \<le> day b))))"

definition date_less :: "date \<Rightarrow> date \<Rightarrow> bool" where
  "date_less a b =
    (year a < year b \<or> (year a = year b \<and>
      (month a < month b \<or> (month a = month b \<and> day a < day b))))"

text \<open>
  \<open>d + timedelta(days=1)\<close>: Python adds one to the ordinal, raises OverflowError beyond
  the last ordinal and converts back; \<open>next_day\<close> is the date of the next ordinal
  (lemma \<open>toordinal_next_day\<close>).
\<close>

definition next_day :: "date \<Rightarrow> date" where
  "next_day d =
    (if day d < days_in_month (year d) (month d) then d\<lparr>day := day d + 1\<rparr>
     else if month d < 12 then d\<lparr>month := month d + 1, day := 1\<rparr>
     else d\<lparr>year := year d + 1, month := 1, day := 1\<rparr>)"

definition add_one_day :: "date \<Rightarrow> error + date" where
  "add_one_day d = (if toordinal d + 1 \<le> MAXORDINAL then Inr (next_day d) else Inl OverflowError)"

subsection \<open>Dates as strings\<close>

text \<open>
  How \<open>date.fromisoformat\<close> and \<open>date.strftime\<close> treat some strings depends on the
  Python version and on the C library, so the driver below takes them as a parameter. The
  two functions defined here are one such library, used to run the model:
  \<open>iso_fromisoformat\<close> reads the format \<open>YYYY-MM-DD\<close> (ten characters, ASCII digits) and
  raises ValueError on anything else, also on a day that is not in the calendar;
  \<open>padded_strftime\<close> writes the directives \<open>%Y\<close>, \<open>%m\<close> and \<open>%d\<close> (the only ones the code
  uses) with leading zeros, and copies every other character.
\<close>

definition digit_value :: "char \<Rightarrow> nat option" where
  "digit_value c =
    (let n = (of_char c :: nat) in if 48 \<le> n \<and> n \<le> 57 then Some (n - 48) else None)"

fun parse_digits :: "string \<Rightarrow> nat \<Rightarrow> nat option" where
  "parse_digits [] acc = Some acc"
| "parse_digits (c # cs) acc =
    (case digit_value c of None \<Rightarrow> None | Some v \<Rightarrow> parse_digits cs (acc * 10 + v))"

definition iso_fromisoformat :: "string \<Rightarrow> error + date" where
  "iso_fromisoformat s =
    (if length s \<noteq> 10 then Inl ValueError
     else
       (case (parse_digits (take 4 s) 0, parse_digits (take 2 (drop 5 s)) 0,
              parse_digits (drop 8 s) 0) of
          (Some y, Some m, Some d) \<Rightarrow>
            if s ! 4 = CHR ''-'' \<and> s ! 7 = CHR ''-'' \<and>
               valid_date \<lparr>year = y, month = m, day = d\<rparr>
            then Inr \<lparr>year = y, month = m, day = d\<rparr>
            else Inl ValueError
        | _ \<Rightarrow> Inl ValueError))"

definition digit_char :: "nat \<Rightarrow> char" where
  "digit_char n = char_of (48 + n)"

definition pad2 :: "nat \<Rightarrow> string" where
  "pad2 n = [digit_char (n div 10 mod 10), digit_char (n mod 10)]"

definition pad4 :: "nat \<Rightarrow> string" where
  "pad4 n = [digit_char (n div 1000 mod 10), digit_char (n div 100 mod 10),
             digit_char (n div 10 mod 10), digit_char (n mod 10)]"

fun padded_strftime :: "date \<Rightarrow> string \<Rightarrow> string" where
  "padded_strftime d (c # c' # fmt) =
    (if c = CHR ''%'' \<and> c' = CHR ''Y'' then pad4 (year d) @ padded_strftime d fmt
     else if c = CHR ''%'' \<and> c' = CHR ''m'' then pad2 (month d) @ padded_strftime d fmt
     else if c = CHR ''%'' \<and> c' = CHR ''d'' then pad2 (day d) @ padded_strftime d fmt
     else c # padded_strftime d (c' # fmt))"
| "padded_strftime d fmt = fmt"

text \<open>\<open>s.replace(old, new)\<close> for a non-empty \<open>old\<close>: every occurrence, from the left.\<close>

function str_replace :: "string \<Rightarrow> string \<Rightarrow> string \<Rightarrow> string" where
  "str_replace [] old new = []"
| "str_replace (c # cs) old new =
    (if old \<noteq> [] \<and> prefix old (c # cs)
     then new @ str_replace (drop (length old) (c # cs)) old new
     else c # str_replace cs old new)"
  by pat_completeness auto
termination
  by (relation "measure (\<lambda>(s, old, new). length s)") (auto simp: neq_Nil_conv)

declare str_replace.simps [simp del]

section \<open>What the fetcher does with a run of attempts\<close>

text \<open>
  An attempt is retryable when the request raised, or when the response has a status other
  than 200 and no marker text (the first two branches of \<open>make_retry\<close>). A retryable
  attempt leaves the request, its log lines and one sleep in the trace;
  \<open>failed_attempts\<close> are the events of \<open>j\<close> such attempts in a row, the first at loop
  index \<open>retry\<close> when \<open>k\<close> requests have been made.
\<close>

definition retryable :: "attempt \<Rightarrow> bool" where
  "retryable a =
    (case a of
       Raised e \<Rightarrow> True
     | Responded r \<Rightarrow> status_code r \<noteq> 200 \<and> \<not> str_contains (resp_text r) MARKER)"

fun attempt_events :: "string \<Rightarrow> nat \<Rightarrow> attempt \<Rightarrow> event list" where
  "attempt_events u delay (Raised e) =
    [HttpGet u, LogInfo (ExceptionText e), LogInfo (SecondsBeforeNextRetry delay), Sleep delay]"
| "attempt_events u delay (Responded r) =
    [HttpGet u, LogInfo (ResponseURL (url r)), LogInfo (ResponseStatusCode (status_code r)),
     LogInfo (ResponseText (resp_text r)), LogInfo (SecondsBeforeNextRetry delay), Sleep delay]"

definition failed_attempts :: "network \<Rightarrow> nat \<Rightarrow> string \<Rightarrow> nat \<Rightarrow> nat \<Rightarrow> nat \<Rightarrow> event list" where
  "failed_attempts net k u delay_seconds retry j =
    concat (map (\<lambda>i. attempt_events u (delay_seconds * 2 ^ (retry + i)) (net (k + i) u)) [0..<j])"

section \<open>Facts about the calendar\<close>

lemma month_cases:
  "1 \<le> m \<Longrightarrow> m \<le> 12 \<Longrightarrow>
   m = 1 \<or> m = 2 \<or> m = 3 \<or> m = 4 \<or> m = 5 \<or> m = 6 \<or> m = 7 \<or> m = 8 \<or> m = 9 \<or> m = 10 \<or> m = 11 \<or> m = (12::nat)"
  by (simp add: numeral_eq_Suc le_Suc_eq)

lemma mod_100_4: "k mod 100 = 0 \<Longrightarrow> k mod 4 = (0::nat)"
proof -
  assume "k mod 100 = 0"
  then have "100 dvd k" by (simp add: dvd_eq_mod_eq_0)
  moreover have "(4::nat) dvd 100" by simp
  ultimately have "4 dvd k" by (rule dvd_trans [rotated])
  then show ?thesis by simp
qed

lemma mod_400_100: "k mod 400 = 0 \<Longrightarrow> k mod 100 = (0::nat)"
proof -
  assume "k mod 400 = 0"
  then have "400 dvd k" by (simp add: dvd_eq_mod_eq_0)
  moreover have "(100::nat) dvd 400" by simp
  ultimately have "100 dvd k" by (rule dvd_trans [rotated])
  then show ?thesis by simp
qed

lemma days_before_year_Suc:
  "days_before_year (Suc (Suc n)) = days_before_year (Suc n) + (if is_leap (Suc n) then 366 else 365)"
proof -
  have le: "n div 100 \<le> n div 4" by (rule div_le_mono2) simp_all
  have le': "Suc n div 100 \<le> Suc n div 4" by (rule div_le_mono2) simp_all
  show ?thesis
    using le le' mod_100_4 [of "Suc n"] mod_400_100 [of "Suc n"]
    apply (auto simp: days_before_year_def is_leap_def Let_def div_Suc)
       apply linarith+
    done
qed


lemma days_before_year_mono: "1 \<le> a \<Longrightarrow> a \<le> b \<Longrightarrow> days_before_year a \<le> days_before_year b"
proof (induction b)
  case 0
  then show ?case by simp
next
  case (Suc b)
  show ?case
  proof (cases "a = Suc b")
    case True
    then show ?thesis by simp
  next
    case False
    with Suc.prems have ab: "a \<le> b" and "1 \<le> b" by simp_all
    then obtain n where b: "b = Suc n" by (cases b) simp_all
    have "days_before_year b \<le> days_before_year (Suc b)"
      unfolding b by (simp add: days_before_year_Suc)
    with Suc.IH [OF Suc.prems(1) ab] show ?thesis by simp
  qed
qed

lemma days_before_month_Suc:
  "1 \<le> m \<Longrightarrow> m < 12 \<Longrightarrow> days_before_month y (Suc m) = days_before_month y m + days_in_month y m"
  using month_cases [of m]
  by (auto simp: days_before_month_def days_in_month_def DAYS_BEFORE_MONTH_def)

lemma days_before_month_12:
  "days_before_month y 12 + days_in_month y 12 = (if is_leap y then 366 else 365)"
  by (simp add: days_before_month_def days_in_month_def DAYS_BEFORE_MONTH_def)

lemma days_before_month_1: "days_before_month y (Suc 0) = 0"
  by (simp add: days_before_month_def DAYS_BEFORE_MONTH_def)

lemma toordinal_next_day: "valid_date d \<Longrightarrow> toordinal (next_day d) = toordinal d + 1"
proof -
  assume v: "valid_date d"
  then obtain n where y: "year d = Suc n"
    by (cases "year d") (simp_all add: valid_date_def MINYEAR_def)
  show ?thesis
    using v days_before_month_Suc [of "month d" "year d"] days_before_month_12 [of "year d"]
      days_before_year_Suc [of n]
    by (auto simp: valid_date_def toordinal_def next_day_def y days_before_month_1 split: if_splits)
qed

lemma days_before_month_mono:
  "1 \<le> m \<Longrightarrow> m \<le> m' \<Longrightarrow> m' \<le> 12 \<Longrightarrow> days_before_month y m \<le> days_before_month y m'"
proof (induction m')
  case 0
  then show ?case by simp
next
  case (Suc k)
  show ?case
  proof (cases "m = Suc k")
    case True
    then show ?thesis by simp
  next
    case False
    with Suc.prems have mk: "m \<le> k" and k: "1 \<le> k" "k < 12" by simp_all
    from days_before_month_Suc [OF k] Suc.IH [OF Suc.prems(1) mk] k show ?thesis by simp
  qed
qed

lemma within_year:
  "1 \<le> m \<Longrightarrow> m \<le> 12 \<Longrightarrow> dd \<le> days_in_month y m \<Longrightarrow>
   days_before_month y m + dd \<le> (if is_leap y then 366 else 365)"
proof -
  assume m: "1 \<le> m" "m \<le> 12" and dd: "dd \<le> days_in_month y m"
  have "days_before_month y m + days_in_month y m \<le> days_before_month y 12 + days_in_month y 12"
  proof (cases "m = 12")
    case True
    then show ?thesis by simp
  next
    case False
    with m have lt: "m < 12" by simp
    have "days_before_month y (Suc m) \<le> days_before_month y 12"
      by (rule days_before_month_mono) (use lt in simp_all)
    with days_before_month_Suc [OF m(1) lt] show ?thesis by simp
  qed
  with dd show ?thesis by (simp add: days_before_month_12)
qed

lemma toordinal_strict_mono:
  assumes a: "valid_date a" and b: "valid_date b" and less: "date_less a b"
  shows "toordinal a < toordinal b"
proof -
  from a obtain n where ya: "year a = Suc n"
    by (cases "year a") (simp_all add: valid_date_def MINYEAR_def)
  consider (y) "year a < year b"
    | (m) "year a = year b" "month a < month b"
    | (d) "year a = year b" "month a = month b" "day a < day b"
    using less by (auto simp: date_less_def)
  then show ?thesis
  proof cases
    case y
    have "days_before_month (year a) (month a) + day a \<le> (if is_leap (year a) then 366 else 365)"
      by (rule within_year) (use a in \<open>simp_all add: valid_date_def\<close>)
    then have "toordinal a \<le> days_before_year (Suc (year a))"
      unfolding ya toordinal_def by (simp add: days_before_year_Suc ya)
    also have "\<dots> \<le> days_before_year (year b)"
      by (rule days_before_year_mono) (use y in simp_all)
    also have "\<dots> < toordinal b"
      using b by (simp add: toordinal_def valid_date_def)
    finally show ?thesis .
  next
    case m
    have "days_before_month (year a) (month a) + day a
            \<le> days_before_month (year a) (month a) + days_in_month (year a) (month a)"
      using a by (simp add: valid_date_def)
    also have "\<dots> = days_before_month (year a) (Suc (month a))"
      by (rule days_before_month_Suc [symmetric]) (use a b m in \<open>simp_all add: valid_date_def\<close>)
    also have "\<dots> \<le> days_before_month (year a) (month b)"
      by (rule days_before_month_mono) (use a b m in \<open>simp_all add: valid_date_def\<close>)
    finally show ?thesis
      using b m by (simp add: toordinal_def valid_date_def)
  next
    case d
    then show ?thesis by (simp add: toordinal_def)
  qed
qed

lemma date_le_iff: "date_le a b \<longleftrightarrow> date_less a b \<or> a = b"
  by (cases a; cases b) (auto simp: date_le_def date_less_def)

lemma date_not_le: "\<not> date_le a b \<longleftrightarrow> date_less b a"
  by (auto simp: date_le_def date_less_def)

lemma date_le_toordinal:
  assumes "valid_date a" and "valid_date b"
  shows "date_le a b \<longleftrightarrow> toordinal a \<le> toordinal b"
proof
  assume "date_le a b"
  then show "toordinal a \<le> toordinal b"
    using toordinal_strict_mono [OF assms] by (auto simp: date_le_iff)
next
  assume le: "toordinal a \<le> toordinal b"
  show "date_le a b"
  proof (rule ccontr)
    assume "\<not> date_le a b"
    then have "date_less b a" by (simp add: date_not_le)
    from toordinal_strict_mono [OF assms(2,1) this] le show False by simp
  qed
qed

lemma toordinal_max: "toordinal \<lparr>year = 9999, month = 12, day = 31\<rparr> = MAXORDINAL"
  by (simp add: toordinal_def days_before_year_def days_before_month_def DAYS_BEFORE_MONTH_def
      is_leap_def MAXORDINAL_def)

lemma digits2: "n < 100 \<Longrightarrow> (n div 10 mod 10) * 10 + n mod 10 = (n::nat)"
proof -
  assume "n < 100"
  then have "n div 10 mod 10 = n div 10" by simp
  then show ?thesis by (simp only: div_mult_mod_eq)
qed

lemma digits4: "y < 10000 \<Longrightarrow> (((y div 1000 mod 10) * 10 + y div 100 mod 10) * 10 + y div 10 mod 10) * 10 + y mod 10 = (y::nat)"
proof -
  assume "y < 10000"
  then have a: "y div 1000 mod 10 = y div 1000" by simp
  have k: "y div 1000 = y div 100 div 10" "y div 100 = y div 10 div 10"
    by (simp_all add: div_mult2_eq [symmetric])
  have e1: "y div 1000 mod 10 * 10 + y div 100 mod 10 = y div 100"
    unfolding a unfolding k(1) by (rule div_mult_mod_eq)
  have e2: "y div 100 * 10 + y div 10 mod 10 = y div 10"
    unfolding k(2) by (rule div_mult_mod_eq)
  show ?thesis by (simp only: e1 e2 div_mult_mod_eq)
qed

lemma digit_value_digit_char: "digit_value (digit_char (k mod 10)) = Some (k mod 10)"
proof -
  have "k mod 10 < 10" by simp
  then show ?thesis
    by (simp add: digit_value_def digit_char_def Let_def del: mod_less_divisor)
qed

lemma parse_pad2: "n < 100 \<Longrightarrow> parse_digits (pad2 n) 0 = Some n"
proof -
  assume n: "n < 100"
  have "parse_digits (pad2 n) 0 = Some (n div 10 mod 10 * 10 + n mod 10)"
    by (simp only: pad2_def parse_digits.simps digit_value_digit_char option.case
        mult_zero_left add_0)
  then show ?thesis by (simp only: digits2 [OF n])
qed

lemma parse_pad4: "n < 10000 \<Longrightarrow> parse_digits (pad4 n) 0 = Some n"
proof -
  assume n: "n < 10000"
  have "parse_digits (pad4 n) 0 =
      Some (((n div 1000 mod 10 * 10 + n div 100 mod 10) * 10 + n div 10 mod 10) * 10 + n mod 10)"
    by (simp only: pad4_def parse_digits.simps digit_value_digit_char option.case
        mult_zero_left add_0)
  then show ?thesis by (simp only: digits4 [OF n])
qed

lemma padded_DATE_FORMAT:
  "padded_strftime d DATE_FORMAT = pad4 (year d) @ ''-'' @ pad2 (month d) @ ''-'' @ pad2 (day d)"
  by (simp add: DATE_FORMAT_def)

lemma days_in_month_le: "days_in_month y m \<le> 31"
  by (simp add: days_in_month_def)

lemma iso_roundtrip:
  assumes "valid_date d"
  shows "iso_fromisoformat (padded_strftime d DATE_FORMAT) = Inr d"
proof -
  obtain yy mm dd where d: "d = \<lparr>year = yy, month = mm, day = dd\<rparr>" by (cases d)
  have y: "yy < 10000" and m: "mm < 100"
    using assms by (simp_all add: valid_date_def MAXYEAR_def d)
  have "dd \<le> 31" using assms days_in_month_le [of yy mm]
    by (simp add: valid_date_def d)
  then have dd: "dd < 100" by simp
  have l4: "length (pad4 yy) = 4" and l2: "length (pad2 mm) = 2" "length (pad2 dd) = 2"
    by (simp_all add: pad4_def pad2_def)
  show ?thesis
    using assms
    by (simp add: iso_fromisoformat_def padded_DATE_FORMAT d l4 l2 parse_pad4 [OF y] parse_pad2 [OF m]
        parse_pad2 [OF dd] nth_append)
qed

lemma iso_fromisoformat_valid: "iso_fromisoformat s = Inr d \<Longrightarrow> valid_date d"
  by (auto simp: iso_fromisoformat_def split: if_splits option.splits)

lemma next_day_valid:
  assumes v: "valid_date d" and o: "toordinal d + 1 \<le> MAXORDINAL"
  shows "valid_date (next_day d)"
proof (cases "year d = 9999 \<and> month d = 12 \<and> day d = 31")
  case True
  obtain yy mm dd where d: "d = \<lparr>year = yy, month = mm, day = dd\<rparr>" by (cases d)
  from True have "d = \<lparr>year = 9999, month = 12, day = 31\<rparr>" by (simp add: d)
  with o toordinal_max show ?thesis by simp
next
  case False
  then show ?thesis
    using v month_cases [of "month d"]
    by (auto simp: valid_date_def next_day_def days_in_month_def MINYEAR_def MAXYEAR_def
        split: if_splits)
qed

lemma add_one_day_Inr:
  assumes "valid_date d" and "add_one_day d = Inr d'"
  shows "d' = next_day d" and "valid_date d'" and "toordinal d' = Suc (toordinal d)"
proof -
  from assms(2) have o: "toordinal d + 1 \<le> MAXORDINAL" and d': "d' = next_day d"
    by (auto simp: add_one_day_def split: if_splits)
  show "d' = next_day d" by (rule d')
  show "valid_date d'" unfolding d' by (rule next_day_valid [OF assms(1) o])
  show "toordinal d' = Suc (toordinal d)" unfolding d' by (simp add: toordinal_next_day [OF assms(1)])
qed

section \<open>The date library as a parameter\<close>

text \<open>
  The driver calls \<open>date.fromisoformat\<close> and \<open>date.strftime\<close>. Which strings the first one
  accepts depends on the Python version (from 3.11 on also \<open>20231005\<close> and \<open>2023-W40-4\<close>),
  and what the second one writes for \<open>%Y\<close> depends on the C library (\<open>999\<close> or \<open>0999\<close> for
  the year 999). The repository fixes neither, so the model of the driver takes the two
  functions as a parameter \<open>dt\<close>. The type holds what every version guarantees, and what the
  loop needs to end: a string that is read gives a date of the calendar, and reading what
  \<open>strftime\<close> wrote with \<open>DATE_FORMAT\<close> gives the date that was written, or raises.
\<close>

typedef datetime_module =
  "{lib :: (string \<Rightarrow> error + date) \<times> (date \<Rightarrow> string \<Rightarrow> string).
      (\<forall>s d. fst lib s = Inr d \<longrightarrow> valid_date d) \<and>
      (\<forall>d d'. valid_date d \<longrightarrow> fst lib (snd lib d DATE_FORMAT) = Inr d' \<longrightarrow> d' = d)}"
  by (rule exI [of _ "(\<lambda>s. Inl ValueError, \<lambda>d fmt. fmt)"]) simp

definition fromisoformat :: "datetime_module \<Rightarrow> string \<Rightarrow> error + date" where
  "fromisoformat dt = fst (Rep_datetime_module dt)"

definition strftime :: "datetime_module \<Rightarrow> date \<Rightarrow> string \<Rightarrow> string" where
  "strftime dt = snd (Rep_datetime_module dt)"

lemma fromisoformat_valid: "fromisoformat dt s = Inr d \<Longrightarrow> valid_date d"
  using Rep_datetime_module [of dt] by (auto simp: fromisoformat_def)

lemma fromisoformat_strftime:
  "valid_date d \<Longrightarrow> fromisoformat dt (strftime dt d DATE_FORMAT) = Inr d' \<Longrightarrow> d' = d"
  using Rep_datetime_module [of dt] by (auto simp: fromisoformat_def strftime_def)

text \<open>
  The library that reads only \<open>YYYY-MM-DD\<close> and writes the year with four digits (Python up
  to 3.10 where the C library pads the year).
\<close>

definition reference_datetime :: datetime_module where
  "reference_datetime = Abs_datetime_module (iso_fromisoformat, padded_strftime)"

lemma reference_datetime_Rep:
  "Rep_datetime_module reference_datetime = (iso_fromisoformat, padded_strftime)"
  unfolding reference_datetime_def
  by (rule Abs_datetime_module_inverse) (auto simp: iso_fromisoformat_valid iso_roundtrip)

lemma fromisoformat_reference [simp]: "fromisoformat reference_datetime = iso_fromisoformat"
  by (simp add: fromisoformat_def reference_datetime_Rep)

lemma strftime_reference [simp]: "strftime reference_datetime = padded_strftime"
  by (simp add: strftime_def reference_datetime_Rep)

text \<open>
  On every platform a date from the year 1000 on is written as \<open>YYYY-MM-DD\<close> and read back.
  The results that need the loop to get past a date assume this of the library.
\<close>

definition reads_back :: "datetime_module \<Rightarrow> bool" where
  "reads_back dt =
    (\<forall>d. valid_date d \<and> 1000 \<le> year d \<longrightarrow> fromisoformat dt (strftime dt d DATE_FORMAT) = Inr d)"

lemma reads_back_reference: "reads_back reference_datetime"
  by (simp add: reads_back_def iso_roundtrip)

section \<open>The sync driver: \<open>do_sync\<close>\<close>

text \<open>
  The argument \<open>currencies\<close> is whatever the configuration holds. The code asks only whether
  it is a list; a list holds currency codes, which are strings.
\<close>

datatype currencies_arg = NotAList | PyList "string list"

definition STREAM :: string where
  "STREAM = ''exchange_rate_cbr''"

text \<open>The truth value of a response is \<open>Response.ok\<close>: no status from 400 to 599.\<close>

definition response_bool :: "response \<Rightarrow> bool" where
  "response_bool r = (\<not> (400 \<le> status_code r \<and> status_code r < 600))"

text \<open>\<open>d[k]\<close> on a dict.\<close>

definition subscript :: "pydict \<Rightarrow> string \<Rightarrow> error + json" where
  "subscript d k = (case map_of d k of None \<Rightarrow> Inl KeyError | Some v \<Rightarrow> Inr v)"

text \<open>The loop \<open>for valute in currencies\<close> (lines 129 to 131).\<close>

fun filter_loop :: "json \<Rightarrow> string list \<Rightarrow> pydict \<Rightarrow> error + pydict" where
  "filter_loop valutes [] record = Inr record"
| "filter_loop valutes (valute # rest) record =
    (case get_method valutes valute (JObj []) of
       Inl e \<Rightarrow> Inl e
     | Inr entry \<Rightarrow>
        (case get_method entry ''Value'' JNull of
           Inl e \<Rightarrow> Inl e
         | Inr val \<Rightarrow>
            (case get_method valutes valute (JObj []) of
               Inl e \<Rightarrow> Inl e
             | Inr entry' \<Rightarrow>
                (case get_method entry' ''Nominal'' JNull of
                   Inl e \<Rightarrow> Inl e
                 | Inr nominal \<Rightarrow>
                    filter_loop valutes rest
                      (dict_set (dict_set record valute val) (valute @ ''_Nominal'') nominal)))))"

text \<open>The loop \<open>for valute in valutes\<close> over the keys of the dict (lines 133 to 135).\<close>

fun all_loop :: "pydict \<Rightarrow> string list \<Rightarrow> pydict \<Rightarrow> error + pydict" where
  "all_loop valutes [] record = Inr record"
| "all_loop valutes (valute # rest) record =
    (case subscript valutes valute of
       Inl e \<Rightarrow> Inl e
     | Inr entry \<Rightarrow>
        (case get_method entry ''Value'' JNull of
           Inl e \<Rightarrow> Inl e
         | Inr val \<Rightarrow>
            (case subscript valutes valute of
               Inl e \<Rightarrow> Inl e
             | Inr entry' \<Rightarrow>
                (case get_method entry' ''Nominal'' JNull of
                   Inl e \<Rightarrow> Inl e
                 | Inr nominal \<Rightarrow>
                    all_loop valutes rest
                      (dict_set (dict_set record valute val) (valute @ ''_Nominal'') nominal)))))"

text \<open>
  Lines 124 to 136: what one day's fetch adds. The result is the new record, if the day has
  one; \<open>currencies\<close> is the filter after the list check (\<open>None\<close> for Python's \<open>None\<close>),
  and it is true as a condition when it is a list that is not empty.
\<close>

definition build_record ::
  "string list option \<Rightarrow> string \<Rightarrow> response option \<Rightarrow> error + pydict option"
where
  "build_record currencies date_to_process response =
    (case response of
       None \<Rightarrow> Inr None
     | Some r \<Rightarrow>
        if \<not> response_bool r then Inr None
        else
          (case json_body r of
             None \<Rightarrow> Inl JSONDecodeError
           | Some body \<Rightarrow>
              (case get_method body ''Valute'' JNull of
                 Inl e \<Rightarrow> Inl e
               | Inr valutes \<Rightarrow>
                  if \<not> truthy valutes then Inr None
                  else
                    (let record = [(''date'', JStr date_to_process)] in
                     case currencies of
                       Some (c # cs) \<Rightarrow>
                         (case filter_loop valutes (c # cs) record of
                            Inl e \<Rightarrow> Inl e
                          | Inr record' \<Rightarrow> Inr (Some record'))
                     | _ \<Rightarrow>
                         (case valutes of
                            JObj d \<Rightarrow>
                              (case all_loop d (dict_keys d) record of
                                 Inl e \<Rightarrow> Inl e
                               | Inr record' \<Rightarrow> Inr (Some record'))
                          | _ \<Rightarrow> Inl NonDictValute)))))"

text \<open>The expression \<open>(date.fromisoformat(s) + timedelta(days=1)).strftime(DATE_FORMAT)\<close> of
  lines 138, 144 and 146.\<close>

definition day_after :: "datetime_module \<Rightarrow> string \<Rightarrow> error + string" where
  "day_after dt s =
    (case fromisoformat dt s of
       Inl e \<Rightarrow> Inl e
     | Inr d \<Rightarrow>
        (case add_one_day d of
           Inl e \<Rightarrow> Inl e
         | Inr d' \<Rightarrow> Inr (strftime dt d' DATE_FORMAT)))"

text \<open>
  Lines 112 to 135, one day of the loop with \<open>k\<close> requests made so far: the pause, the log
  line, the fetch from the day's endpoint and the record built from what it returned.
\<close>

definition process_day ::
  "datetime_module \<Rightarrow> network \<Rightarrow> string list option \<Rightarrow> string \<Rightarrow> nat
    \<Rightarrow> event list \<times> nat \<times> (error + pydict option)"
where
  "process_day dt net currencies date_to_process k =
    (case fromisoformat dt date_to_process of
       Inl e \<Rightarrow> ([Sleep 2, LogInfo (DateToProcess date_to_process)], k, Inl e)
     | Inr d \<Rightarrow>
        (let endpoint = str_replace ENDPOINT ''DATE'' (strftime dt d ''%Y//%m//%d'');
             (tr, k', response) = make_retry net k endpoint N_RETRIES DELAY_SECONDS
         in ([Sleep 2, LogInfo (DateToProcess date_to_process)] @ tr, k',
             build_record currencies date_to_process response)))"

text \<open>The number of days the loop still has to visit, its termination measure.\<close>

definition days_left :: "datetime_module \<Rightarrow> string \<Rightarrow> string \<Rightarrow> nat" where
  "days_left dt date_to_process date_stop_arg =
    (case (fromisoformat dt date_to_process, fromisoformat dt date_stop_arg) of
       (Inr d, Inr s) \<Rightarrow> Suc (toordinal s) - toordinal d
     | _ \<Rightarrow> 0)"

lemma days_left_decreases:
  assumes p: "fromisoformat dt date_to_process = Inr d"
    and q: "fromisoformat dt date_stop_arg = Inr s"
    and le: "date_le d s" and n: "day_after dt date_to_process = Inr next_date"
  shows "days_left dt next_date date_stop_arg < days_left dt date_to_process date_stop_arg"
proof -
  from p have vd: "valid_date d" by (rule fromisoformat_valid)
  from q have vs: "valid_date s" by (rule fromisoformat_valid)
  from n p obtain d' where a: "add_one_day d = Inr d'"
    and n': "next_date = strftime dt d' DATE_FORMAT"
    by (auto simp: day_after_def split: sum.splits)
  from le have le': "toordinal d \<le> toordinal s" by (simp add: date_le_toordinal [OF vd vs])
  show ?thesis
  proof (cases "fromisoformat dt next_date")
    case (Inl e)
    with le' p q show ?thesis by (simp add: days_left_def)
  next
    case (Inr d'')
    then have "d'' = d'"
      unfolding n' by (rule fromisoformat_strftime [OF add_one_day_Inr(2) [OF vd a]])
    with Inr add_one_day_Inr(3) [OF vd a] le' p q show ?thesis by (simp add: days_left_def)
  qed
qed

text \<open>
  The \<open>while\<close> loop of lines 111 to 138, with \<open>k\<close> requests made so far. It gives the
  effects in order and either the exception that ended the run or the list \<open>data\<close> with the
  variable \<open>record\<close> (\<open>None\<close> while no record was built).
\<close>

function sync_loop ::
  "datetime_module \<Rightarrow> network \<Rightarrow> string list option \<Rightarrow> string \<Rightarrow> string \<Rightarrow> nat
    \<Rightarrow> pydict list \<Rightarrow> pydict option \<Rightarrow> event list \<times> (error + pydict list \<times> pydict option)"
where
  "sync_loop dt net currencies date_stop_arg date_to_process k data record =
    (case fromisoformat dt date_to_process of
       Inl e \<Rightarrow> ([], Inl e)
     | Inr d \<Rightarrow>
        (case fromisoformat dt date_stop_arg of
           Inl e \<Rightarrow> ([], Inl e)
         | Inr s \<Rightarrow>
            if date_le d s then
              (let (tr, k', new) = process_day dt net currencies date_to_process k in
                 (case new of
                    Inl e \<Rightarrow> (tr, Inl e)
                  | Inr new' \<Rightarrow>
                     (let (data', record') =
                        (case new' of None \<Rightarrow> (data, record) | Some r \<Rightarrow> (data @ [r], Some r))
                      in
                        (case day_after dt date_to_process of
                           Inl e \<Rightarrow> (tr, Inl e)
                         | Inr next_date \<Rightarrow>
                            (let (tr', res) =
                               sync_loop dt net currencies date_stop_arg next_date k' data' record'
                             in (tr @ tr', res))))))
            else ([], Inr (data, record))))"
  by pat_completeness auto
termination
  by (relation "measure (\<lambda>(dt, net, currencies, date_stop_arg, date_to_process, k, data, record).
        days_left dt date_to_process date_stop_arg)")
    (auto intro: days_left_decreases)

declare sync_loop.simps [simp del]

text \<open>
  \<open>make_schema\<close>: the property \<open>date\<close>, then one nullable number for every key of the
  record that is not yet a property.
\<close>

definition schema_properties :: "pydict \<Rightarrow> pydict" where
  "schema_properties record =
    fold (\<lambda>rate properties.
        if rate \<notin> set (dict_keys properties)
        then dict_set properties rate (JObj [(''type'', JArr [JStr ''null'', JStr ''number''])])
        else properties)
      (dict_keys record)
      [(''date'', JObj [(''type'', JStr ''string''), (''format'', JStr ''date'')])]"

definition make_schema :: "pydict \<Rightarrow> json" where
  "make_schema record =
    JObj [(''type'', JStr ''object''), (''properties'', JObj (schema_properties record))]"

text \<open>The value \<open>record['date']\<close> read as a date string and moved on by a day (line 144).\<close>

definition day_after_record :: "datetime_module \<Rightarrow> pydict \<Rightarrow> error + string" where
  "day_after_record dt record =
    (case subscript record ''date'' of
       Inl e \<Rightarrow> Inl e
     | Inr (JStr s) \<Rightarrow> day_after dt s
     | Inr _ \<Rightarrow> Inl TypeError)"

text \<open>The loop \<open>for record in data\<close> of lines 142 to 144.\<close>

fun emit_records ::
  "datetime_module \<Rightarrow> pydict list \<Rightarrow> run_state \<Rightarrow> event list \<times> (error + run_state)"
where
  "emit_records dt [] state = ([], Inr state)"
| "emit_records dt (record # rest) state =
    (case day_after_record dt record of
       Inl e \<Rightarrow> ([WriteRecords STREAM [record]], Inl e)
     | Inr s \<Rightarrow>
        (let (tr, res) = emit_records dt rest (state\<lparr>date_start := s\<rparr>)
         in (WriteRecords STREAM [record] # tr, res)))"

text \<open>Lines 140 to 154: the output of the run. Reading the variable \<open>record\<close> before any
  record was built would raise UnboundLocalError.\<close>

definition emit_all ::
  "datetime_module \<Rightarrow> pydict list \<Rightarrow> pydict option \<Rightarrow> run_state \<Rightarrow> event list \<times> error option"
where
  "emit_all dt data record state =
    (if length data > 0 then
       (case record of
          None \<Rightarrow> ([], Some UnboundLocalError)
        | Some r \<Rightarrow>
           (let (tr, res) = emit_records dt data state;
                out = WriteSchema STREAM (make_schema r) ''date'' # tr
            in
              (case res of
                 Inl e \<Rightarrow> (out, Some e)
               | Inr state' \<Rightarrow>
                  (case day_after dt (date_stop state') of
                     Inl e \<Rightarrow> (out, Some e)
                   | Inr s \<Rightarrow>
                      (out @ [WriteState (state'\<lparr>date_stop := s\<rparr>),
                              LogInfo (CompletedRows (length data))], None)))))
     else ([LogInfo NothingDone], None))"

text \<open>\<open>do_sync\<close>: the effects of a run in order, and the exception it raises, if any.\<close>

definition check_currencies :: "currencies_arg \<Rightarrow> event \<times> string list option" where
  "check_currencies currencies =
    (case currencies of
       NotAList \<Rightarrow> (LogWarning CurrenciesNotAList, None)
     | PyList cs \<Rightarrow> (LogInfo (CurrenciesSpecified cs), Some cs))"

definition do_sync ::
  "datetime_module \<Rightarrow> network \<Rightarrow> string \<Rightarrow> string \<Rightarrow> currencies_arg \<Rightarrow> event list \<times> error option"
where
  "do_sync dt net date_start_arg date_stop_arg currencies =
    (let (log0, currencies') = check_currencies currencies;
         state = \<lparr>date_start = date_start_arg, date_stop = date_stop_arg\<rparr>;
         (tr, res) = sync_loop dt net currencies' date_stop_arg date_start_arg 0 [] None
     in
       (case res of
          Inl e \<Rightarrow> (log0 # tr, Some e)
        | Inr (data, record) \<Rightarrow>
           (let (tr', err) = emit_all dt data record state in (log0 # tr @ tr', err))))"

section \<open>Facts about the fetcher\<close>

lemma str_contains_self: "str_contains s s"
  by (cases s) simp_all

lemma no_marker: "CHR 0xD0 \<notin> set s \<Longrightarrow> \<not> str_contains s MARKER"
  by (induction s) (auto simp: MARKER_def)

lemma failed_attempts_0: "failed_attempts net k u d retry 0 = []"
  by (simp add: failed_attempts_def)

lemma failed_attempts_Suc:
  "failed_attempts net k u d retry (Suc j) =
    attempt_events u (d * 2 ^ retry) (net k u) @ failed_attempts net (Suc k) u d (Suc retry) j"
proof -
  have "[0..<Suc j] = 0 # map Suc [0..<j]"
    by (simp add: upt_conv_Cons map_Suc_upt del: upt_Suc)
  then show ?thesis
    by (simp add: failed_attempts_def comp_def del: upt_Suc)
qed

lemma make_retry_loop_step:
  assumes "retry < n" and "retryable (net k u)"
  shows "make_retry_loop net k u n d retry =
    (case make_retry_loop net (Suc k) u n d (Suc retry) of
       (tr, k', res) \<Rightarrow> (attempt_events u (d * 2 ^ retry) (net k u) @ tr, k', res))"
  using assms
  by (subst make_retry_loop.simps)
    (auto simp: retryable_def Let_def split: attempt.splits prod.splits)

lemma make_retry_loop_skip:
  assumes "\<forall>i<j. retryable (net (k + i) u)" and "retry + j \<le> n"
  shows "make_retry_loop net k u n d retry =
    (case make_retry_loop net (k + j) u n d (retry + j) of
       (tr, k', res) \<Rightarrow> (failed_attempts net k u d retry j @ tr, k', res))"
  using assms
proof (induction j arbitrary: k retry)
  case 0
  then show ?case by (simp add: failed_attempts_0 split: prod.splits)
next
  case (Suc j)
  from Suc.prems have r: "retry < n" and first: "retryable (net k u)"
    by (simp, metis add.right_neutral zero_less_Suc)
  have rest: "\<forall>i<j. retryable (net (Suc k + i) u)"
    using Suc.prems(1) by (metis Suc_less_eq add_Suc_right add_Suc)
  have le: "Suc retry + j \<le> n" using Suc.prems(2) by simp
  have step: "make_retry_loop net k u n d retry =
    (case make_retry_loop net (Suc k) u n d (Suc retry) of
       (tr, k', res) \<Rightarrow> (attempt_events u (d * 2 ^ retry) (net k u) @ tr, k', res))"
    using r first by (rule make_retry_loop_step)
  show ?case
    by (simp add: step Suc.IH [OF rest le] failed_attempts_Suc split: prod.splits)
qed


section \<open>What a run leaves in its trace\<close>

text \<open>
  The dates the loop announced (line 113), the URLs requested, the pauses in seconds, and the
  messages written to the output: schema, records and state.
\<close>

definition date_logged :: "event \<Rightarrow> string list" where
  "date_logged ev = (case ev of LogInfo (DateToProcess s) \<Rightarrow> [s] | _ \<Rightarrow> [])"

definition visited :: "event list \<Rightarrow> string list" where
  "visited tr = concat (map date_logged tr)"

definition requests :: "event list \<Rightarrow> string list" where
  "requests tr = concat (map (\<lambda>ev. case ev of HttpGet u \<Rightarrow> [u] | _ \<Rightarrow> []) tr)"

definition sleeps :: "event list \<Rightarrow> nat list" where
  "sleeps tr = concat (map (\<lambda>ev. case ev of Sleep n \<Rightarrow> [n] | _ \<Rightarrow> []) tr)"

definition is_output :: "event \<Rightarrow> bool" where
  "is_output ev =
    (case ev of WriteSchema st sch key \<Rightarrow> True | WriteRecords st rs \<Rightarrow> True
     | WriteState st \<Rightarrow> True | _ \<Rightarrow> False)"

definition outputs :: "event list \<Rightarrow> event list" where
  "outputs tr = filter is_output tr"

text \<open>The \<open>n\<close> dates from \<open>d\<close> on, and the dates from \<open>s\<close> to \<open>e\<close>, both included.\<close>

fun dates_from :: "date \<Rightarrow> nat \<Rightarrow> date list" where
  "dates_from d 0 = []"
| "dates_from d (Suc n) = d # dates_from (next_day d) n"

definition date_range :: "date \<Rightarrow> date \<Rightarrow> date list" where
  "date_range s e = dates_from s (Suc (toordinal e) - toordinal s)"

lemma visited_append [simp]: "visited (xs @ ys) = visited xs @ visited ys"
  by (simp add: visited_def)

lemma requests_append [simp]: "requests (xs @ ys) = requests xs @ requests ys"
  by (simp add: requests_def)

lemma sleeps_append [simp]: "sleeps (xs @ ys) = sleeps xs @ sleeps ys"
  by (simp add: sleeps_def)

lemma outputs_append [simp]: "outputs (xs @ ys) = outputs xs @ outputs ys"
  by (simp add: outputs_def)

lemma visited_Nil [simp]: "visited [] = []"
  by (simp add: visited_def)

lemma requests_Nil [simp]: "requests [] = []"
  by (simp add: requests_def)

lemma sleeps_Nil [simp]: "sleeps [] = []"
  by (simp add: sleeps_def)

lemma outputs_Nil [simp]: "outputs [] = []"
  by (simp add: outputs_def)

lemma visited_Cons: "visited (ev # tr) = date_logged ev @ visited tr"
  by (simp add: visited_def)

lemma requests_Cons:
  "requests (ev # tr) = (case ev of HttpGet u \<Rightarrow> [u] | _ \<Rightarrow> []) @ requests tr"
  by (simp add: requests_def)

lemma sleeps_Cons: "sleeps (ev # tr) = (case ev of Sleep n \<Rightarrow> [n] | _ \<Rightarrow> []) @ sleeps tr"
  by (simp add: sleeps_def)

lemma outputs_Cons: "outputs (ev # tr) = (if is_output ev then ev # outputs tr else outputs tr)"
  by (simp add: outputs_def)

lemmas trace_simps =
  visited_Cons requests_Cons sleeps_Cons outputs_Cons date_logged_def is_output_def

lemma attempt_events_trace:
  "visited (attempt_events u d a) = []" "outputs (attempt_events u d a) = []"
  "requests (attempt_events u d a) = [u]" "sleeps (attempt_events u d a) = [d]"
  by (cases a; simp add: trace_simps)+

lemma failed_attempts_trace:
  "visited (failed_attempts net k u d retry j) = []"
  "outputs (failed_attempts net k u d retry j) = []"
  "requests (failed_attempts net k u d retry j) = replicate j u"
  "sleeps (failed_attempts net k u d retry j) = map (\<lambda>i. d * 2 ^ (retry + i)) [0..<j]"
proof -
  show "visited (failed_attempts net k u d retry j) = []"
    by (induction j arbitrary: k retry)
      (simp_all add: failed_attempts_0 failed_attempts_Suc attempt_events_trace)
  show "outputs (failed_attempts net k u d retry j) = []"
    by (induction j arbitrary: k retry)
      (simp_all add: failed_attempts_0 failed_attempts_Suc attempt_events_trace)
  show "requests (failed_attempts net k u d retry j) = replicate j u"
    by (induction j arbitrary: k retry)
      (simp_all add: failed_attempts_0 failed_attempts_Suc attempt_events_trace)
  show "sleeps (failed_attempts net k u d retry j) = map (\<lambda>i. d * 2 ^ (retry + i)) [0..<j]"
  proof (induction j arbitrary: k retry)
    case 0
    then show ?case by (simp add: failed_attempts_0)
  next
    case (Suc j)
    have "[0..<Suc j] = 0 # map Suc [0..<j]"
      by (simp add: upt_conv_Cons map_Suc_upt del: upt_Suc)
    then show ?case
      by (simp add: failed_attempts_Suc attempt_events_trace Suc.IH comp_def del: upt_Suc)
  qed
qed

text \<open>
  How a fetch ends: after \<open>j\<close> retryable attempts either the attempts are used up, or
  attempt \<open>j\<close> got a response that ends the fetch.
\<close>

lemma make_retry_loop_shape:
  assumes "retry \<le> n"
  shows "\<exists>j. retry + j \<le> n \<and> (\<forall>i<j. retryable (net (k + i) u)) \<and>
    (retry + j = n \<and>
       make_retry_loop net k u n d retry =
         (failed_attempts net k u d retry j @ [LogWarning (FailedAfter n)], k + j, None)
     \<or> retry + j < n \<and> (\<exists>r. net (k + j) u = Responded r \<and> \<not> retryable (net (k + j) u) \<and>
         make_retry_loop net k u n d retry =
           (failed_attempts net k u d retry j @
              (if str_contains (resp_text r) MARKER
               then [HttpGet u, LogWarning (ResponseText (resp_text r))] else [HttpGet u]),
            k + j + 1,
            if str_contains (resp_text r) MARKER then None else Some r)))"
  using assms
proof (induction "n - retry" arbitrary: k retry)
  case 0
  then have "retry = n" by simp
  then have "make_retry_loop net k u n d retry = ([LogWarning (FailedAfter n)], k, None)"
    by (subst make_retry_loop.simps) simp
  with \<open>retry = n\<close> show ?case
    by (intro exI [of _ 0]) (simp add: failed_attempts_0)
next
  case (Suc m)
  then have lt: "retry < n" by simp
  show ?case
  proof (cases "retryable (net k u)")
    case True
    have m: "m = n - Suc retry" using Suc.hyps(2) by simp
    have le: "Suc retry \<le> n" using lt by simp
    from Suc.hyps(1) [OF m le, of "Suc k"]
    obtain j where j: "Suc retry + j \<le> n" "\<forall>i<j. retryable (net (Suc k + i) u)"
      and c: "Suc retry + j = n \<and>
         make_retry_loop net (Suc k) u n d (Suc retry) =
           (failed_attempts net (Suc k) u d (Suc retry) j @ [LogWarning (FailedAfter n)], Suc k + j, None)
       \<or> Suc retry + j < n \<and> (\<exists>r. net (Suc k + j) u = Responded r \<and> \<not> retryable (net (Suc k + j) u) \<and>
           make_retry_loop net (Suc k) u n d (Suc retry) =
             (failed_attempts net (Suc k) u d (Suc retry) j @
                (if str_contains (resp_text r) MARKER
                 then [HttpGet u, LogWarning (ResponseText (resp_text r))] else [HttpGet u]),
              Suc k + j + 1,
              if str_contains (resp_text r) MARKER then None else Some r))"
      by blast
    have all: "\<forall>i<Suc j. retryable (net (k + i) u)"
    proof (intro allI impI)
      fix i assume "i < Suc j"
      show "retryable (net (k + i) u)"
      proof (cases i)
        case 0
        with True show ?thesis by simp
      next
        case (Suc i')
        with \<open>i < Suc j\<close> j(2) show ?thesis by simp
      qed
    qed
    have step: "make_retry_loop net k u n d retry =
      (case make_retry_loop net (Suc k) u n d (Suc retry) of
         (tr, k', res) \<Rightarrow> (attempt_events u (d * 2 ^ retry) (net k u) @ tr, k', res))"
      using lt True by (rule make_retry_loop_step)
    from c show ?thesis
      using j(1) all
      by (intro exI [of _ "Suc j"]) (auto simp: step failed_attempts_Suc)
  next
    case False
    then obtain r where r: "net k u = Responded r"
      and nr: "status_code r = 200 \<or> str_contains (resp_text r) MARKER"
      by (auto simp: retryable_def split: attempt.splits)
    have "make_retry_loop net k u n d retry =
        ((if str_contains (resp_text r) MARKER
          then [HttpGet u, LogWarning (ResponseText (resp_text r))] else [HttpGet u]),
         k + 1, if str_contains (resp_text r) MARKER then None else Some r)"
      using lt r nr by (subst make_retry_loop.simps) auto
    with lt r False show ?thesis
      by (intro exI [of _ 0]) (simp add: failed_attempts_0)
  qed
qed

lemma make_retry_shape:
  obtains j where "j \<le> n" and "\<forall>i<j. retryable (net (k + i) u)"
    and "j = n \<and>
       make_retry net k u n d =
         (failed_attempts net k u d 0 j @ [LogWarning (FailedAfter n)], k + j, None)
     \<or> j < n \<and> (\<exists>r. net (k + j) u = Responded r \<and> \<not> retryable (net (k + j) u) \<and>
         make_retry net k u n d =
           (failed_attempts net k u d 0 j @
              (if str_contains (resp_text r) MARKER
               then [HttpGet u, LogWarning (ResponseText (resp_text r))] else [HttpGet u]),
            k + j + 1,
            if str_contains (resp_text r) MARKER then None else Some r))"
  using make_retry_loop_shape [of 0 n net k u d] unfolding make_retry_def by auto

lemma make_retry_exhausted:
  assumes "\<forall>i<n. retryable (net (k + i) u)"
  shows "make_retry net k u n d =
    (failed_attempts net k u d 0 n @ [LogWarning (FailedAfter n)], k + n, None)"
proof -
  have "make_retry_loop net (k + n) u n d n = ([LogWarning (FailedAfter n)], k + n, None)"
    by (subst make_retry_loop.simps) simp
  with make_retry_loop_skip [of n net k u 0 n d] assms show ?thesis
    by (simp add: make_retry_def)
qed

lemma make_retry_trace:
  "visited (fst (make_retry net k u n d)) = []" "outputs (fst (make_retry net k u n d)) = []"
proof -
  obtain j where "j = n \<and>
       make_retry net k u n d =
         (failed_attempts net k u d 0 j @ [LogWarning (FailedAfter n)], k + j, None)
     \<or> j < n \<and> (\<exists>r. net (k + j) u = Responded r \<and> \<not> retryable (net (k + j) u) \<and>
         make_retry net k u n d =
           (failed_attempts net k u d 0 j @
              (if str_contains (resp_text r) MARKER
               then [HttpGet u, LogWarning (ResponseText (resp_text r))] else [HttpGet u]),
            k + j + 1,
            if str_contains (resp_text r) MARKER then None else Some r))"
    by (rule make_retry_shape)
  then show "visited (fst (make_retry net k u n d)) = []"
    and "outputs (fst (make_retry net k u n d)) = []"
    by (auto simp: failed_attempts_trace trace_simps)
qed

section \<open>The loop over the dates\<close>


lemma year_next_day: "year d \<le> year (next_day d)"
  by (simp add: next_day_def)

lemma day_after_Inr:
  assumes "day_after dt s = Inr nxt" and "fromisoformat dt s = Inr d"
  shows "toordinal d < MAXORDINAL" and "nxt = strftime dt (next_day d) DATE_FORMAT"
    and "valid_date (next_day d)" and "toordinal (next_day d) = Suc (toordinal d)"
proof -
  from assms obtain d' where a: "add_one_day d = Inr d'" and n: "nxt = strftime dt d' DATE_FORMAT"
    by (auto simp: day_after_def split: sum.splits)
  from assms(2) have v: "valid_date d" by (rule fromisoformat_valid)
  from a show "toordinal d < MAXORDINAL" by (simp add: add_one_day_def split: if_splits)
  from n add_one_day_Inr(1) [OF v a] show "nxt = strftime dt (next_day d) DATE_FORMAT" by simp
  from add_one_day_Inr(1,2) [OF v a] show "valid_date (next_day d)" by simp
  from add_one_day_Inr(1,3) [OF v a] show "toordinal (next_day d) = Suc (toordinal d)" by simp
qed

lemma day_after_ok:
  assumes "fromisoformat dt s = Inr d" and "toordinal d < MAXORDINAL"
  shows "day_after dt s = Inr (strftime dt (next_day d) DATE_FORMAT)"
  using assms by (simp add: day_after_def add_one_day_def)

lemma make_retry_quiet:
  assumes "make_retry net k u n d = (tr, k', res)"
  shows "visited tr = []" and "outputs tr = []"
  using make_retry_trace [of net k u n d] assms by simp_all

lemma process_day_trace:
  "visited (fst (process_day dt net cur s k)) = [s]"
  "outputs (fst (process_day dt net cur s k)) = []"
  by (auto simp: process_day_def Let_def trace_simps split: sum.splits prod.splits
      dest: make_retry_quiet)

lemma process_day_quiet:
  assumes "process_day dt net cur s k = (tr, k', new)"
  shows "visited tr = [s]" and "outputs tr = []"
  using process_day_trace [of dt net cur s k] assms by simp_all

lemma sync_loop_induct [case_names step]:
  assumes step: "\<And>s k data rec.
    (\<And>d e tr1 k' new nxt.
        fromisoformat dt s = Inr d \<Longrightarrow> fromisoformat dt b = Inr e \<Longrightarrow> date_le d e \<Longrightarrow>
        process_day dt net cur s k = (tr1, k', Inr new) \<Longrightarrow> day_after dt s = Inr nxt \<Longrightarrow>
        P nxt k' (case new of None \<Rightarrow> data | Some r \<Rightarrow> data @ [r])
          (case new of None \<Rightarrow> rec | Some r \<Rightarrow> Some r))
    \<Longrightarrow> P s k data rec"
  shows "P s k data rec"
proof (induction "days_left dt s b" arbitrary: s k data rec rule: less_induct)
  case less
  show ?case
    apply (rule step)
    apply (rule less.hyps)
    apply (rule days_left_decreases)
       apply assumption+
    done
qed

lemma sync_loop_stop:
  assumes "fromisoformat dt s = Inr d" and "fromisoformat dt b = Inr e" and "\<not> date_le d e"
  shows "sync_loop dt net cur b s k data rec = ([], Inr (data, rec))"
  using assms by (subst sync_loop.simps) simp

lemma sync_loop_step:
  assumes "fromisoformat dt s = Inr d" and "fromisoformat dt b = Inr e" and "date_le d e"
    and "process_day dt net cur s k = (tr1, k', Inr new)" and "day_after dt s = Inr nxt"
  shows "sync_loop dt net cur b s k data rec =
    (case sync_loop dt net cur b nxt k' (case new of None \<Rightarrow> data | Some r \<Rightarrow> data @ [r])
            (case new of None \<Rightarrow> rec | Some r \<Rightarrow> Some r) of
       (tr2, res) \<Rightarrow> (tr1 @ tr2, res))"
  using assms by (subst sync_loop.simps) (simp add: Let_def split: option.splits prod.splits)

lemma sync_loop_raise_day:
  assumes "fromisoformat dt s = Inr d" and "fromisoformat dt b = Inr e" and "date_le d e"
    and "process_day dt net cur s k = (tr1, k', Inl err)"
  shows "sync_loop dt net cur b s k data rec = (tr1, Inl err)"
  using assms by (subst sync_loop.simps) simp

lemma sync_loop_Inr:
  assumes "sync_loop dt net cur b s k data rec = (tr, Inr (data', rec'))"
  obtains (stop) d e where "fromisoformat dt s = Inr d" and "fromisoformat dt b = Inr e"
      and "\<not> date_le d e" and "tr = []" and "data' = data" and "rec' = rec"
  | (step) d e tr1 k' new nxt tr2 where "fromisoformat dt s = Inr d"
      and "fromisoformat dt b = Inr e" and "date_le d e"
      and "process_day dt net cur s k = (tr1, k', Inr new)" and "day_after dt s = Inr nxt"
      and "sync_loop dt net cur b nxt k' (case new of None \<Rightarrow> data | Some r \<Rightarrow> data @ [r])
            (case new of None \<Rightarrow> rec | Some r \<Rightarrow> Some r) = (tr2, Inr (data', rec'))"
      and "tr = tr1 @ tr2"
proof -
  from assms obtain d e where p: "fromisoformat dt s = Inr d" and q: "fromisoformat dt b = Inr e"
    by (subst (asm) sync_loop.simps) (auto split: sum.splits)
  show thesis
  proof (cases "date_le d e")
    case False
    with assms p q stop show ?thesis by (simp add: sync_loop_stop)
  next
    case True
    obtain tr1 k' res where pd: "process_day dt net cur s k = (tr1, k', res)"
      by (cases "process_day dt net cur s k") auto
    from assms p q True pd obtain new where new: "res = Inr new"
      by (cases res) (simp_all add: sync_loop_raise_day)
    from assms p q True pd new obtain nxt where n: "day_after dt s = Inr nxt"
      by (subst (asm) sync_loop.simps) (auto simp: Let_def split: sum.splits option.splits)
    obtain tr2 res2 where r: "sync_loop dt net cur b nxt k'
        (case new of None \<Rightarrow> data | Some r \<Rightarrow> data @ [r])
        (case new of None \<Rightarrow> rec | Some r \<Rightarrow> Some r) = (tr2, res2)"
      by (cases "sync_loop dt net cur b nxt k'
        (case new of None \<Rightarrow> data | Some r \<Rightarrow> data @ [r])
        (case new of None \<Rightarrow> rec | Some r \<Rightarrow> Some r)") auto
    from assms have "tr = tr1 @ tr2" and "res2 = Inr (data', rec')"
      by (simp_all add: sync_loop_step [OF p q True pd [unfolded new] n] r)
    with p q True pd new n r step show ?thesis by simp
  qed
qed

text \<open>The loop writes nothing to the output.\<close>

lemma sync_loop_outputs: "outputs (fst (sync_loop dt net cur b s k data rec)) = []"
proof (induction s k data rec rule: sync_loop_induct [where dt = dt and b = b and net = net and cur = cur])
  case (step s k data rec)
  show ?case
  proof (cases "fromisoformat dt s")
    case (Inl err)
    then show ?thesis by (subst sync_loop.simps) simp
  next
    case p: (Inr d)
    show ?thesis
    proof (cases "fromisoformat dt b")
      case (Inl err)
      with p show ?thesis by (subst sync_loop.simps) simp
    next
      case q: (Inr e)
      show ?thesis
      proof (cases "date_le d e")
        case False
        with p q show ?thesis by (simp add: sync_loop_stop)
      next
        case True
        obtain tr1 k' res where pd: "process_day dt net cur s k = (tr1, k', res)"
          by (cases "process_day dt net cur s k") auto
        have o1: "outputs tr1 = []" using pd by (rule process_day_quiet)
        show ?thesis
        proof (cases res)
          case (Inl err)
          with p q True pd o1 show ?thesis by (simp add: sync_loop_raise_day)
        next
          case new: (Inr new)
          show ?thesis
          proof (cases "day_after dt s")
            case (Inl err)
            with p q True pd new o1 show ?thesis
              by (subst sync_loop.simps) (simp add: Let_def split: option.splits)
          next
            case (Inr nxt)
            from step [OF p q True pd [unfolded new] Inr] o1 show ?thesis
              by (auto simp: sync_loop_step [OF p q True pd [unfolded new] Inr] split: prod.splits)
          qed
        qed
      qed
    qed
  qed
qed


text \<open>If the loop ends without an exception, it has announced the dates from the start
  date to the stop date, one after the other.\<close>

lemma sync_loop_visited:
  assumes "sync_loop dt net cur b s k data rec = (tr, Inr (data', rec'))"
    and "fromisoformat dt s = Inr d" and "fromisoformat dt b = Inr e"
  shows "map (fromisoformat dt) (visited tr) = map Inr (dates_from d (Suc (toordinal e) - toordinal d))"
  using assms
proof (induction s k data rec arbitrary: tr d rule: sync_loop_induct [where dt = dt and b = b and net = net and cur = cur])
  case (step s k data rec)
  from step.prems(2) have vd: "valid_date d" by (rule fromisoformat_valid)
  from step.prems(3) have ve: "valid_date e" by (rule fromisoformat_valid)
  from step.prems(1) show ?case
  proof (cases rule: sync_loop_Inr)
    case (stop d' e')
    with step.prems(2,3) have "\<not> date_le d e" by simp
    then have "toordinal e < toordinal d" using date_le_toordinal [OF vd ve] by simp
    with stop show ?thesis by simp
  next
    case (step d' e' tr1 k' new nxt tr2)
    with step.prems(2,3) have d': "d' = d" and e': "e' = e" by simp_all
    from step(3) have le: "toordinal d \<le> toordinal e"
      using date_le_toordinal [OF vd ve] by (simp add: d' e')
    note da = day_after_Inr [OF step(5) step.prems(2)]
    from step(6) obtain d1 where p1: "fromisoformat dt nxt = Inr d1"
      by (cases rule: sync_loop_Inr) auto
    then have "d1 = next_day d"
      unfolding da(2) by (rule fromisoformat_strftime [OF da(3)])
    with p1 have p1': "fromisoformat dt nxt = Inr (next_day d)" by simp
    have v1: "visited tr1 = [s]" using step(4) by (rule process_day_quiet)
    have n: "Suc (toordinal e) - toordinal d = Suc (Suc (toordinal e) - toordinal (next_day d))"
      using le da(4) by simp
    from step.IH [OF step(1,2,3,4,5) step(6) p1' step.prems(3)]
    show ?thesis
      by (simp add: step(7) v1 step.prems(2) n)
  qed
qed

text \<open>If the loop ends without an exception, the records it has added come each from a day
  between the date it started at and the stop date, and \<open>record\<close> is the last of them.\<close>

lemma sync_loop_data:
  assumes "sync_loop dt net cur b s k data rec = (tr, Inr (data', rec'))"
    and "fromisoformat dt s = Inr d" and "fromisoformat dt b = Inr e"
  shows "\<exists>news. data' = data @ news \<and> rec' = (if news = [] then rec else Some (last news)) \<and>
    (\<forall>r\<in>set news. \<exists>s' d' k1 tr1 k2. fromisoformat dt s' = Inr d' \<and>
        toordinal d \<le> toordinal d' \<and> toordinal d' \<le> toordinal e \<and>
        process_day dt net cur s' k1 = (tr1, k2, Inr (Some r)))"
  using assms
proof (induction s k data rec arbitrary: tr d rule: sync_loop_induct [where dt = dt and b = b and net = net and cur = cur])
  case (step s k data rec)
  from step.prems(2) have vd: "valid_date d" by (rule fromisoformat_valid)
  from step.prems(3) have ve: "valid_date e" by (rule fromisoformat_valid)
  from step.prems(1) show ?case
  proof (cases rule: sync_loop_Inr)
    case (stop d' e')
    then show ?thesis by (intro exI [of _ "[]"]) simp
  next
    case (step d' e' tr1 k' new nxt tr2)
    with step.prems(2,3) have d': "d' = d" and e': "e' = e" by simp_all
    from step(3) have le: "toordinal d \<le> toordinal e"
      using date_le_toordinal [OF vd ve] by (simp add: d' e')
    note da = day_after_Inr [OF step(5) step.prems(2)]
    from step(6) obtain d1 where p1: "fromisoformat dt nxt = Inr d1"
      by (cases rule: sync_loop_Inr) auto
    then have "d1 = next_day d"
      unfolding da(2) by (rule fromisoformat_strftime [OF da(3)])
    with p1 have p1': "fromisoformat dt nxt = Inr (next_day d)" by simp
    from step.IH [OF step(1,2,3,4,5) step(6) p1' step.prems(3)]
    obtain news where n1: "data' = (case new of None \<Rightarrow> data | Some r \<Rightarrow> data @ [r]) @ news"
      and n2: "rec' = (if news = [] then (case new of None \<Rightarrow> rec | Some r \<Rightarrow> Some r)
                       else Some (last news))"
      and n3: "\<forall>r\<in>set news. \<exists>s' d' k1 tr1 k2. fromisoformat dt s' = Inr d' \<and>
        toordinal (next_day d) \<le> toordinal d' \<and> toordinal d' \<le> toordinal e \<and>
        process_day dt net cur s' k1 = (tr1, k2, Inr (Some r))"
      by blast
    from n3 da(4) have n3': "\<forall>r\<in>set news. \<exists>s' d' k1 tr1 k2. fromisoformat dt s' = Inr d' \<and>
        toordinal d \<le> toordinal d' \<and> toordinal d' \<le> toordinal e \<and>
        process_day dt net cur s' k1 = (tr1, k2, Inr (Some r))"
      by (metis Suc_leD)
    show ?thesis
    proof (cases new)
      case None
      with n1 n2 n3' show ?thesis by (intro exI [of _ news]) simp
    next
      case (Some r)
      have "\<exists>s' d' k1 tr1 k2. fromisoformat dt s' = Inr d' \<and>
        toordinal d \<le> toordinal d' \<and> toordinal d' \<le> toordinal e \<and>
        process_day dt net cur s' k1 = (tr1, k2, Inr (Some r))"
        using step.prems(2) le step(4) Some by blast
      with Some n1 n2 n3' show ?thesis by (intro exI [of _ "r # news"]) auto
    qed
  qed
qed

text \<open>
  The loop ends without an exception when the stop date is not the last date of the
  calendar, the dates from the start date on are written as they are read, and no day
  raises.
\<close>

lemma sync_loop_total:
  assumes rb: "reads_back dt"
    and p: "fromisoformat dt s = Inr d" and q: "fromisoformat dt b = Inr e"
    and e: "toordinal e < MAXORDINAL" and y: "1000 \<le> year d"
    and days: "\<And>s' d' k'. fromisoformat dt s' = Inr d' \<Longrightarrow>
      \<exists>tr1 k2 new. process_day dt net cur s' k' = (tr1, k2, Inr new)"
  shows "\<exists>tr data' rec'. sync_loop dt net cur b s k data rec = (tr, Inr (data', rec'))"
  using p y
proof (induction s k data rec arbitrary: d rule: sync_loop_induct [where dt = dt and b = b and net = net and cur = cur])
  case (step s k data rec)
  from step.prems(1) have vd: "valid_date d" by (rule fromisoformat_valid)
  from q have ve: "valid_date e" by (rule fromisoformat_valid)
  show ?case
  proof (cases "date_le d e")
    case False
    with step.prems(1) q show ?thesis by (simp add: sync_loop_stop)
  next
    case True
    then have le: "toordinal d \<le> toordinal e" using date_le_toordinal [OF vd ve] by simp
    with e have lt: "toordinal d < MAXORDINAL" by simp
    from days [OF step.prems(1)] obtain tr1 k2 new where
      pd: "process_day dt net cur s k = (tr1, k2, Inr new)"
      by blast
    have n: "day_after dt s = Inr (strftime dt (next_day d) DATE_FORMAT)"
      using step.prems(1) lt by (rule day_after_ok)
    have v1: "valid_date (next_day d)" using vd lt by (intro next_day_valid) simp_all
    have y1: "1000 \<le> year (next_day d)" using step.prems(2) year_next_day [of d] by simp
    from rb v1 y1 have p1: "fromisoformat dt (strftime dt (next_day d) DATE_FORMAT) = Inr (next_day d)"
      by (simp add: reads_back_def)
    from step.IH [OF step.prems(1) q True pd n p1 y1]
    show ?thesis
      by (auto simp: sync_loop_step [OF step.prems(1) q True pd n] split: prod.splits)
  qed
qed

section \<open>Dates and endpoints of the runs below\<close>

text \<open>The URL requested for a date (line 115).\<close>

definition endpoint_of :: "datetime_module \<Rightarrow> date \<Rightarrow> string" where
  "endpoint_of dt d = str_replace ENDPOINT ''DATE'' (strftime dt d ''%Y//%m//%d'')"

lemma process_day_fetch:
  assumes "fromisoformat dt s = Inr d"
    and "make_retry net k (endpoint_of dt d) N_RETRIES DELAY_SECONDS = (tr, k', response)"
  shows "process_day dt net cur s k =
    ([Sleep 2, LogInfo (DateToProcess s)] @ tr, k', build_record cur s response)"
  using assms by (simp add: process_day_def endpoint_of_def)

lemma toordinal_less_max:
  assumes "valid_date d" and "d \<noteq> \<lparr>year = 9999, month = 12, day = 31\<rparr>"
  shows "toordinal d < MAXORDINAL"
proof -
  let ?m = "\<lparr>year = 9999, month = 12, day = 31\<rparr>"
  have vm: "valid_date ?m"
    by (simp add: valid_date_def MINYEAR_def MAXYEAR_def days_in_month_def)
  from assms(1) have "date_le d ?m"
    using days_in_month_le [of "year d" "month d"]
    by (auto simp: date_le_def valid_date_def MAXYEAR_def)
  with assms(2) have "date_less d ?m" by (simp add: date_le_iff)
  from toordinal_strict_mono [OF assms(1) vm this] show ?thesis by (simp add: toordinal_max)
qed

lemma digit_char_simps:
  "digit_char 0 = CHR ''0''" "digit_char (Suc 0) = CHR ''1''" "digit_char 2 = CHR ''2''"
  "digit_char 3 = CHR ''3''" "digit_char 4 = CHR ''4''" "digit_char 5 = CHR ''5''"
  "digit_char 6 = CHR ''6''" "digit_char 7 = CHR ''7''" "digit_char 8 = CHR ''8''"
  "digit_char 9 = CHR ''9''"
  by code_simp+

lemmas date_eval =
  iso_fromisoformat_def digit_value_def valid_date_def MINYEAR_def MAXYEAR_def days_in_month_def
  is_leap_def DATE_FORMAT_def pad4_def pad2_def digit_char_simps date_le_def next_day_def

lemma reference_day_after:
  assumes "iso_fromisoformat s = Inr d" and "d \<noteq> \<lparr>year = 9999, month = 12, day = 31\<rparr>"
  shows "day_after reference_datetime s = Inr (padded_strftime (next_day d) DATE_FORMAT)"
proof -
  from assms(1) have "valid_date d" by (rule iso_fromisoformat_valid)
  then have "toordinal d < MAXORDINAL" using assms(2) by (rule toordinal_less_max)
  with assms(1) show ?thesis by (simp add: day_after_def add_one_day_def)
qed

text \<open>The dates and URLs of the runs that are evaluated below.\<close>

lemma oct5:
  "iso_fromisoformat ''2023-10-05'' = Inr \<lparr>year = 2023, month = 10, day = 5\<rparr>"
  "day_after reference_datetime ''2023-10-05'' = Inr ''2023-10-06''"
  "endpoint_of reference_datetime \<lparr>year = 2023, month = 10, day = 5\<rparr> =
     ''https://www.cbr-xml-daily.ru//archive//2023//10//05//daily_json.js''"
proof -
  show p: "iso_fromisoformat ''2023-10-05'' = Inr \<lparr>year = 2023, month = 10, day = 5\<rparr>"
    by (simp add: date_eval)
  show "day_after reference_datetime ''2023-10-05'' = Inr ''2023-10-06''"
    by (subst reference_day_after [OF p]) (simp_all add: date_eval)
  show "endpoint_of reference_datetime \<lparr>year = 2023, month = 10, day = 5\<rparr> =
     ''https://www.cbr-xml-daily.ru//archive//2023//10//05//daily_json.js''"
    by (simp add: endpoint_of_def date_eval ENDPOINT_def str_replace.simps)
qed

lemma oct6:
  "iso_fromisoformat ''2023-10-06'' = Inr \<lparr>year = 2023, month = 10, day = 6\<rparr>"
  "day_after reference_datetime ''2023-10-06'' = Inr ''2023-10-07''"
  "endpoint_of reference_datetime \<lparr>year = 2023, month = 10, day = 6\<rparr> =
     ''https://www.cbr-xml-daily.ru//archive//2023//10//06//daily_json.js''"
proof -
  show p: "iso_fromisoformat ''2023-10-06'' = Inr \<lparr>year = 2023, month = 10, day = 6\<rparr>"
    by (simp add: date_eval)
  show "day_after reference_datetime ''2023-10-06'' = Inr ''2023-10-07''"
    by (subst reference_day_after [OF p]) (simp_all add: date_eval)
  show "endpoint_of reference_datetime \<lparr>year = 2023, month = 10, day = 6\<rparr> =
     ''https://www.cbr-xml-daily.ru//archive//2023//10//06//daily_json.js''"
    by (simp add: endpoint_of_def date_eval ENDPOINT_def str_replace.simps)
qed

lemma oct7:
  "iso_fromisoformat ''2023-10-07'' = Inr \<lparr>year = 2023, month = 10, day = 7\<rparr>"
  by (simp add: date_eval)

section \<open>The output of a run\<close>


lemma do_sync_ended:
  assumes "sync_loop dt net (snd (check_currencies c)) b a 0 [] None = (ltr, Inr (data, rec))"
  shows "do_sync dt net a b c =
    (case emit_all dt data rec \<lparr>date_start = a, date_stop = b\<rparr> of
       (tr', err) \<Rightarrow> (fst (check_currencies c) # ltr @ tr', err))"
  using assms by (auto simp: do_sync_def split: prod.splits)

lemma check_currencies_quiet:
  "visited [fst (check_currencies c)] = []" "outputs [fst (check_currencies c)] = []"
  by (cases c; simp add: check_currencies_def trace_simps)+



lemma emit_records_events:
  "set (fst (emit_records dt data st)) \<subseteq> (\<lambda>r. WriteRecords STREAM [r]) ` set data"
proof (induction data arbitrary: st)
  case Nil
  then show ?case by simp
next
  case (Cons r rest)
  show ?case
  proof (cases "day_after_record dt r")
    case (Inl err)
    then show ?thesis by simp
  next
    case (Inr s)
    with Cons.IH [of "st\<lparr>date_start := s\<rparr>"] show ?thesis
      by (auto split: prod.splits)
  qed
qed

lemma visited_no_date:
  assumes "\<forall>ev\<in>set tr. date_logged ev = []"
  shows "visited tr = []"
  using assms by (simp add: visited_def)

lemma emit_all_visited: "visited (fst (emit_all dt data rec st)) = []"
proof (rule visited_no_date)
  have r: "\<forall>ev\<in>set (fst (emit_records dt data st)). date_logged ev = []"
    using emit_records_events [of dt data st] by (auto simp: date_logged_def)
  show "\<forall>ev\<in>set (fst (emit_all dt data rec st)). date_logged ev = []"
    using r
    by (auto simp: emit_all_def Let_def date_logged_def split: option.splits prod.splits sum.splits)
qed



lemma emit_all_nothing: "emit_all dt [] rec st = ([LogInfo NothingDone], None)"
  by (simp add: emit_all_def)


section \<open>The record of a day\<close>

text \<open>
  What the snapshot \<open>valutes\<close> holds for a currency code and a field name: the field of
  the entry of the code, and null where the code or the field is absent.
\<close>

definition rate_of :: "pydict \<Rightarrow> string \<Rightarrow> string \<Rightarrow> json" where
  "rate_of valutes c field =
    (case map_of valutes c of
       Some (JObj entry) \<Rightarrow> (case map_of entry field of None \<Rightarrow> JNull | Some v \<Rightarrow> v)
     | _ \<Rightarrow> JNull)"

text \<open>The currency codes a record is built for: the filter, or the keys of the snapshot when
  the filter is absent or empty.\<close>

definition codes_for :: "string list option \<Rightarrow> pydict \<Rightarrow> string list" where
  "codes_for currencies valutes =
    (case currencies of Some (c # cs) \<Rightarrow> c # cs | _ \<Rightarrow> dict_keys valutes)"



lemma map_of_dict_set: "map_of (dict_set d k v) = (map_of d)(k \<mapsto> v)"
  by (induction d) (auto simp: fun_eq_iff)

lemma dict_keys_dom: "set (dict_keys d) = dom (map_of d)"
  by (simp add: dict_keys_def dom_map_of_conv_image_fst)

lemma dict_keys_dict_set: "set (dict_keys (dict_set d k v)) = insert k (set (dict_keys d))"
  by (simp add: dict_keys_dom map_of_dict_set)



lemma all_loop_keys:
  assumes "all_loop valutes cs rec0 = Inr r"
  shows "set (dict_keys r) = set (dict_keys rec0) \<union> set cs \<union> (\<lambda>c. c @ ''_Nominal'') ` set cs"
  using assms
proof (induction cs arbitrary: rec0)
  case Nil
  then show ?case by simp
next
  case (Cons c cs)
  from Cons.prems(1) obtain val nominal where
    "all_loop valutes cs (dict_set (dict_set rec0 c val) (c @ ''_Nominal'') nominal) = Inr r"
    by (auto split: sum.splits)
  from Cons.IH [OF this] show ?case
    by (auto simp: dict_keys_dict_set)
qed

lemma filter_loop_keys:
  assumes "filter_loop valutes cs rec0 = Inr r"
  shows "set (dict_keys r) = set (dict_keys rec0) \<union> set cs \<union> (\<lambda>c. c @ ''_Nominal'') ` set cs"
  using assms
proof (induction cs arbitrary: rec0)
  case Nil
  then show ?case by simp
next
  case (Cons c cs)
  from Cons.prems(1) obtain val nominal where
    "filter_loop valutes cs (dict_set (dict_set rec0 c val) (c @ ''_Nominal'') nominal) = Inr r"
    by (auto split: sum.splits)
  from Cons.IH [OF this] show ?case
    by (auto simp: dict_keys_dict_set)
qed

text \<open>The record of the codes \<open>cs\<close>, as both loops build it when no call raises.\<close>

definition with_rates :: "pydict \<Rightarrow> string list \<Rightarrow> pydict \<Rightarrow> pydict" where
  "with_rates valutes cs rec0 =
    fold (\<lambda>c acc. dict_set (dict_set acc c (rate_of valutes c ''Value'')) (c @ ''_Nominal'')
           (rate_of valutes c ''Nominal'')) cs rec0"

lemma with_rates_Nil: "with_rates valutes [] rec0 = rec0"
  by (simp add: with_rates_def)

lemma with_rates_Cons:
  "with_rates valutes (c # cs) rec0 =
    with_rates valutes cs
      (dict_set (dict_set rec0 c (rate_of valutes c ''Value'')) (c @ ''_Nominal'')
        (rate_of valutes c ''Nominal''))"
  by (simp add: with_rates_def)

lemma with_rates_snoc:
  "with_rates valutes (cs @ [c]) rec0 =
    dict_set (dict_set (with_rates valutes cs rec0) c (rate_of valutes c ''Value''))
      (c @ ''_Nominal'') (rate_of valutes c ''Nominal'')"
  by (simp add: with_rates_def)

lemma filter_loop_with_rates:
  assumes "\<forall>c\<in>set cs. \<forall>x. map_of valutes c = Some x \<longrightarrow> (\<exists>entry. x = JObj entry)"
  shows "filter_loop (JObj valutes) cs rec0 = Inr (with_rates valutes cs rec0)"
  using assms
proof (induction cs arbitrary: rec0)
  case Nil
  then show ?case by (simp add: with_rates_Nil)
next
  case (Cons c cs)
  show ?case
  proof (cases "map_of valutes c")
    case None
    with Cons show ?thesis by (simp add: with_rates_Cons rate_of_def)
  next
    case (Some x)
    with Cons.prems obtain entry where "x = JObj entry" by auto
    with Some Cons show ?thesis by (simp add: with_rates_Cons rate_of_def)
  qed
qed

lemma all_loop_with_rates:
  assumes "\<forall>c\<in>set cs. \<exists>entry. map_of valutes c = Some (JObj entry)"
  shows "all_loop valutes cs rec0 = Inr (with_rates valutes cs rec0)"
  using assms
proof (induction cs arbitrary: rec0)
  case Nil
  then show ?case by (simp add: with_rates_Nil)
next
  case (Cons c cs)
  then obtain entry where "map_of valutes c = Some (JObj entry)" by auto
  with Cons show ?case by (simp add: with_rates_Cons rate_of_def subscript_def)
qed

lemma with_rates_fields:
  assumes "\<forall>c\<in>set cs. length c = 3" and "c \<in> set cs"
  shows "map_of (with_rates valutes cs rec0) c = Some (rate_of valutes c ''Value'')"
    and "map_of (with_rates valutes cs rec0) (c @ ''_Nominal'') = Some (rate_of valutes c ''Nominal'')"
proof -
  have "map_of (with_rates valutes cs rec0) c = Some (rate_of valutes c ''Value'') \<and>
    map_of (with_rates valutes cs rec0) (c @ ''_Nominal'') = Some (rate_of valutes c ''Nominal'')"
    using assms
  proof (induction cs rule: rev_induct)
    case Nil
    then show ?case by simp
  next
    case (snoc c' cs)
    show ?case
    proof (cases "c = c'")
      case True
      then show ?thesis by (simp add: with_rates_snoc map_of_dict_set)
    next
      case False
      with snoc.prems have in_cs: "c \<in> set cs" and len: "\<forall>c\<in>set cs. length c = 3"
        and l: "length c = 3" and l': "length c' = 3"
        by auto
      from l l' have "c \<noteq> c' @ ''_Nominal''" and "c @ ''_Nominal'' \<noteq> c'" by auto
      with False snoc.IH [OF len in_cs] show ?thesis
        by (simp add: with_rates_snoc map_of_dict_set)
    qed
  qed
  then show "map_of (with_rates valutes cs rec0) c = Some (rate_of valutes c ''Value'')"
    and "map_of (with_rates valutes cs rec0) (c @ ''_Nominal'') = Some (rate_of valutes c ''Nominal'')"
    by simp_all
qed

lemma with_rates_keys:
  "set (dict_keys (with_rates valutes cs rec0)) =
    set (dict_keys rec0) \<union> set cs \<union> (\<lambda>c. c @ ''_Nominal'') ` set cs"
  by (induction cs rule: rev_induct) (auto simp: with_rates_Nil with_rates_snoc dict_keys_dict_set)

lemma with_rates_keep:
  assumes "key \<notin> set cs" and "key \<notin> (\<lambda>c. c @ ''_Nominal'') ` set cs"
  shows "map_of (with_rates valutes cs rec0) key = map_of rec0 key"
  using assms
  by (induction cs rule: rev_induct) (auto simp: with_rates_Nil with_rates_snoc map_of_dict_set)

text \<open>What \<open>make_retry\<close> returns is a response of the network with status 200 and without
  the marker text.\<close>

lemma make_retry_Some:
  assumes "make_retry net k u n d = (tr, k', Some r)"
  shows "status_code r = 200" and "\<not> str_contains (resp_text r) MARKER"
    and "\<exists>j. net (k + j) u = Responded r"
proof -
  obtain j where c: "j = n \<and>
       make_retry net k u n d =
         (failed_attempts net k u d 0 j @ [LogWarning (FailedAfter n)], k + j, None)
     \<or> j < n \<and> (\<exists>r. net (k + j) u = Responded r \<and> \<not> retryable (net (k + j) u) \<and>
         make_retry net k u n d =
           (failed_attempts net k u d 0 j @
              (if str_contains (resp_text r) MARKER
               then [HttpGet u, LogWarning (ResponseText (resp_text r))] else [HttpGet u]),
            k + j + 1,
            if str_contains (resp_text r) MARKER then None else Some r))"
    by (rule make_retry_shape [of n net k u d]) blast
  with assms obtain r' where r': "net (k + j) u = Responded r'" "\<not> retryable (net (k + j) u)"
    and res: "(if str_contains (resp_text r') MARKER then None else Some r') = Some r"
    by auto
  from res have eq: "r' = r" and nm: "\<not> str_contains (resp_text r) MARKER"
    by (auto split: if_splits)
  from r' eq nm show "status_code r = 200" by (simp add: retryable_def)
  from nm show "\<not> str_contains (resp_text r) MARKER" .
  from r' eq show "\<exists>j. net (k + j) u = Responded r" by auto
qed




section \<open>Runs that end without an exception\<close>

lemma sync_loop_quiet:
  assumes "sync_loop dt net cur b s k data rec = (tr, res)"
  shows "outputs tr = []"
  using sync_loop_outputs [of dt net cur b s k data rec] assms by simp






text \<open>Where no attempt gets a response with status 200 and without the marker text, no day
  has a record.\<close>

lemma process_day_no_data:
  assumes "\<forall>k u r. net k u = Responded r \<longrightarrow> status_code r \<noteq> 200 \<or> str_contains (resp_text r) MARKER"
    and "fromisoformat dt s = Inr d"
  shows "\<exists>tr k'. process_day dt net cur s k = (tr, k', Inr None)"
proof -
  obtain ftr k2 response where m: "make_retry net k (endpoint_of dt d) N_RETRIES DELAY_SECONDS = (ftr, k2, response)"
    by (cases "make_retry net k (endpoint_of dt d) N_RETRIES DELAY_SECONDS") auto
  have "response = None"
  proof (cases response)
    case None
    then show ?thesis .
  next
    case (Some r)
    from make_retry_Some [OF m [unfolded Some]] assms(1) show ?thesis by blast
  qed
  with process_day_fetch [OF assms(2) m, of cur] show ?thesis
    by (simp add: build_record_def)
qed

section \<open>Running the loop day by day\<close>

lemma make_retry_first:
  assumes "net k u = Responded r" and "0 < n"
  shows "str_contains (resp_text r) MARKER \<Longrightarrow>
      make_retry net k u n d = ([HttpGet u, LogWarning (ResponseText (resp_text r))], Suc k, None)"
    and "status_code r = 200 \<Longrightarrow> \<not> str_contains (resp_text r) MARKER \<Longrightarrow>
      make_retry net k u n d = ([HttpGet u], Suc k, Some r)"
  using assms unfolding make_retry_def by (subst make_retry_loop.simps, simp)+

lemma sync_loop_day:
  assumes "fromisoformat dt s = Inr d" and "fromisoformat dt b = Inr e" and "date_le d e"
    and "make_retry net k (endpoint_of dt d) N_RETRIES DELAY_SECONDS = (ftr, k', response)"
    and "build_record cur s response = Inr new" and "day_after dt s = Inr nxt"
    and "sync_loop dt net cur b nxt k' (case new of None \<Rightarrow> data | Some r \<Rightarrow> data @ [r])
            (case new of None \<Rightarrow> rec | Some r \<Rightarrow> Some r) = (tr2, res)"
  shows "sync_loop dt net cur b s k data rec =
    ([Sleep 2, LogInfo (DateToProcess s)] @ ftr @ tr2, res)"
proof -
  have pd: "process_day dt net cur s k = ([Sleep 2, LogInfo (DateToProcess s)] @ ftr, k', Inr new)"
    using process_day_fetch [OF assms(1,4), of cur] assms(5) by simp
  from sync_loop_step [OF assms(1,2,3) pd assms(6), of data rec] assms(7) show ?thesis by simp
qed

lemma sync_loop_day_raises:
  assumes "fromisoformat dt s = Inr d" and "fromisoformat dt b = Inr e" and "date_le d e"
    and "make_retry net k (endpoint_of dt d) N_RETRIES DELAY_SECONDS = (ftr, k', response)"
    and "build_record cur s response = Inl err"
  shows "sync_loop dt net cur b s k data rec = ([Sleep 2, LogInfo (DateToProcess s)] @ ftr, Inl err)"
proof -
  have pd: "process_day dt net cur s k = ([Sleep 2, LogInfo (DateToProcess s)] @ ftr, k', Inl err)"
    using process_day_fetch [OF assms(1,4), of cur] assms(5) by simp
  from sync_loop_raise_day [OF assms(1,2,3) pd] show ?thesis .
qed

section \<open>Two runs\<close>



section \<open>The schema of a record\<close>



section \<open>The fetcher classifies each response\<close>

text \<open>
  Claim C1. Let the first \<open>j\<close> attempts of a fetch be retryable and attempt \<open>j\<close> get a
  response. The response falls in exactly one of three classes. With the marker text in its
  body, whatever the status, \<open>make_retry\<close> returns \<open>None\<close> and makes no further request.
  With status 200 and no marker, \<open>make_retry\<close> returns this response. With another status
  and no marker the attempt is retryable: it is logged and slept on like the attempts
  before it, and the fetch goes on with attempt \<open>j + 1\<close>.
\<close>

theorem fetcher_classifies_response:
  assumes "j < n_retries" and "\<forall>i<j. retryable (net (k + i) u)"
    and "net (k + j) u = Responded r"
  shows "(str_contains (resp_text r) MARKER \<longrightarrow>
            make_retry net k u n_retries delay_seconds =
              (failed_attempts net k u delay_seconds 0 j @
                 [HttpGet u, LogWarning (ResponseText (resp_text r))], k + j + 1, None))
       \<and> (status_code r = 200 \<and> \<not> str_contains (resp_text r) MARKER \<longrightarrow>
            make_retry net k u n_retries delay_seconds =
              (failed_attempts net k u delay_seconds 0 j @ [HttpGet u], k + j + 1, Some r))
       \<and> (status_code r \<noteq> 200 \<and> \<not> str_contains (resp_text r) MARKER \<longrightarrow>
            retryable (net (k + j) u) \<and>
            make_retry net k u n_retries delay_seconds =
              (case make_retry_loop net (k + j + 1) u n_retries delay_seconds (j + 1) of
                 (tr, k', res) \<Rightarrow>
                   (failed_attempts net k u delay_seconds 0 (j + 1) @ tr, k', res)))"
proof -
  have skip: "make_retry net k u n_retries delay_seconds =
    (case make_retry_loop net (k + j) u n_retries delay_seconds j of
       (tr, k', res) \<Rightarrow> (failed_attempts net k u delay_seconds 0 j @ tr, k', res))"
    unfolding make_retry_def
    using make_retry_loop_skip [of j net k u 0 n_retries delay_seconds] assms(1,2) by simp
  have last: "(str_contains (resp_text r) MARKER \<longrightarrow>
        make_retry_loop net (k + j) u n_retries delay_seconds j =
          ([HttpGet u, LogWarning (ResponseText (resp_text r))], Suc (k + j), None))
    \<and> (status_code r = 200 \<and> \<not> str_contains (resp_text r) MARKER \<longrightarrow>
        make_retry_loop net (k + j) u n_retries delay_seconds j = ([HttpGet u], Suc (k + j), Some r))"
    using assms(1,3) by (subst (1 2) make_retry_loop.simps) simp
  have more: "status_code r \<noteq> 200 \<and> \<not> str_contains (resp_text r) MARKER \<longrightarrow>
      retryable (net (k + j) u) \<and>
      make_retry net k u n_retries delay_seconds =
        (case make_retry_loop net (k + j + 1) u n_retries delay_seconds (j + 1) of
           (tr, k', res) \<Rightarrow> (failed_attempts net k u delay_seconds 0 (j + 1) @ tr, k', res))"
  proof
    assume c: "status_code r \<noteq> 200 \<and> \<not> str_contains (resp_text r) MARKER"
    with assms(3) have rj: "retryable (net (k + j) u)" by (simp add: retryable_def)
    with assms(2) have all: "\<forall>i<j + 1. retryable (net (k + i) u)"
      by (auto simp: less_Suc_eq)
    have "make_retry net k u n_retries delay_seconds =
      (case make_retry_loop net (k + (j + 1)) u n_retries delay_seconds (0 + (j + 1)) of
         (tr, k', res) \<Rightarrow> (failed_attempts net k u delay_seconds 0 (j + 1) @ tr, k', res))"
      unfolding make_retry_def
      using make_retry_loop_skip [of "j + 1" net k u 0 n_retries delay_seconds] all assms(1)
      by simp
    with rj show "retryable (net (k + j) u) \<and>
      make_retry net k u n_retries delay_seconds =
        (case make_retry_loop net (k + j + 1) u n_retries delay_seconds (j + 1) of
           (tr, k', res) \<Rightarrow> (failed_attempts net k u delay_seconds 0 (j + 1) @ tr, k', res))"
      by (simp add: add.assoc)
  qed
  from skip last more show ?thesis by auto
qed

theorem fetcher_classifies_response_witness:
  "make_retry
      (\<lambda>k u. if k = 0 then Raised ''timeout''
             else if k = 1 then Responded \<lparr>status_code = 503, resp_text = ''busy'', url = u, json_body = None\<rparr>
             else Responded \<lparr>status_code = 200, resp_text = ''{}'', url = u, json_body = Some (JObj [])\<rparr>)
      0 ''u'' N_RETRIES DELAY_SECONDS =
     ([HttpGet ''u'', LogInfo (ExceptionText ''timeout''), LogInfo (SecondsBeforeNextRetry 10), Sleep 10,
       HttpGet ''u'', LogInfo (ResponseURL ''u''), LogInfo (ResponseStatusCode 503),
       LogInfo (ResponseText ''busy''), LogInfo (SecondsBeforeNextRetry 20), Sleep 20,
       HttpGet ''u''],
      3, Some \<lparr>status_code = 200, resp_text = ''{}'', url = ''u'', json_body = Some (JObj [])\<rparr>)
   \<and> make_retry
      (\<lambda>k u. if k = 0 then Raised ''timeout''
             else if k = 1 then Responded \<lparr>status_code = 503, resp_text = ''busy'', url = u, json_body = None\<rparr>
             else Responded \<lparr>status_code = 200, resp_text = ''{}'', url = u, json_body = Some (JObj [])\<rparr>)
      0 ''u'' N_RETRIES DELAY_SECONDS =
     (case make_retry_loop
        (\<lambda>k u. if k = 0 then Raised ''timeout''
             else if k = 1 then Responded \<lparr>status_code = 503, resp_text = ''busy'', url = u, json_body = None\<rparr>
             else Responded \<lparr>status_code = 200, resp_text = ''{}'', url = u, json_body = Some (JObj [])\<rparr>)
        2 ''u'' N_RETRIES DELAY_SECONDS 2 of
        (tr, k', res) \<Rightarrow>
          ([HttpGet ''u'', LogInfo (ExceptionText ''timeout''), LogInfo (SecondsBeforeNextRetry 10), Sleep 10,
            HttpGet ''u'', LogInfo (ResponseURL ''u''), LogInfo (ResponseStatusCode 503),
            LogInfo (ResponseText ''busy''), LogInfo (SecondsBeforeNextRetry 20), Sleep 20] @ tr, k', res))
   \<and> make_retry
      (\<lambda>k u. Responded \<lparr>status_code = 404, resp_text = ''<h1>'' @ MARKER, url = u, json_body = None\<rparr>)
      7 ''u'' N_RETRIES DELAY_SECONDS =
     ([HttpGet ''u'', LogWarning (ResponseText (''<h1>'' @ MARKER))], 8, None)"
proof -
  let ?net = "\<lambda>k u. if k = (0::nat) then Raised ''timeout''
             else if k = 1 then Responded \<lparr>status_code = 503, resp_text = ''busy'', url = u, json_body = None\<rparr>
             else Responded \<lparr>status_code = 200, resp_text = ''{}'', url = u, json_body = Some (JObj [])\<rparr>"
  let ?down = "\<lambda>(k::nat) u. Responded \<lparr>status_code = 404, resp_text = ''<h1>'' @ MARKER, url = u, json_body = None\<rparr>"
  have n1: "\<not> str_contains ''busy'' MARKER" and n2: "\<not> str_contains ''{}'' MARKER"
    by (rule no_marker, simp)+
  have m: "str_contains (''<h1>'' @ MARKER) MARKER" by (simp add: str_contains_self)
  have two: "\<forall>i<Suc (Suc 0). retryable (?net (0 + i) ''u'')"
    using n1 by (simp add: less_Suc_eq retryable_def del: str_contains.simps)
  have one: "\<forall>i<Suc 0. retryable (?net (0 + i) ''u'')"
    by (simp add: retryable_def)
  have a: "make_retry ?net 0 ''u'' N_RETRIES DELAY_SECONDS =
      (failed_attempts ?net 0 ''u'' DELAY_SECONDS 0 (Suc (Suc 0)) @ [HttpGet ''u''], 0 + Suc (Suc 0) + 1,
       Some \<lparr>status_code = 200, resp_text = ''{}'', url = ''u'', json_body = Some (JObj [])\<rparr>)"
    using fetcher_classifies_response [of "Suc (Suc 0)" N_RETRIES ?net 0 "''u''" _ DELAY_SECONDS] two n2
    by (simp add: N_RETRIES_def del: str_contains.simps)
  have b: "make_retry ?net 0 ''u'' N_RETRIES DELAY_SECONDS =
      (case make_retry_loop ?net (0 + Suc 0 + 1) ''u'' N_RETRIES DELAY_SECONDS (Suc 0 + 1) of
         (tr, k', res) \<Rightarrow> (failed_attempts ?net 0 ''u'' DELAY_SECONDS 0 (Suc 0 + 1) @ tr, k', res))"
    using fetcher_classifies_response [of "Suc 0" N_RETRIES ?net 0 "''u''" _ DELAY_SECONDS] one n1
    by (simp add: N_RETRIES_def del: str_contains.simps)
  have c: "make_retry ?down 7 ''u'' N_RETRIES DELAY_SECONDS =
      (failed_attempts ?down 7 ''u'' DELAY_SECONDS 0 0 @
         [HttpGet ''u'', LogWarning (ResponseText (''<h1>'' @ MARKER))], 7 + 0 + 1, None)"
    using fetcher_classifies_response [of 0 N_RETRIES ?down 7 "''u''" _ DELAY_SECONDS] m
    by (simp add: N_RETRIES_def del: str_contains.simps)
  have f2: "failed_attempts ?net 0 ''u'' DELAY_SECONDS 0 (Suc (Suc 0)) =
      [HttpGet ''u'', LogInfo (ExceptionText ''timeout''), LogInfo (SecondsBeforeNextRetry 10), Sleep 10,
       HttpGet ''u'', LogInfo (ResponseURL ''u''), LogInfo (ResponseStatusCode 503),
       LogInfo (ResponseText ''busy''), LogInfo (SecondsBeforeNextRetry 20), Sleep 20]"
    by (simp add: failed_attempts_Suc failed_attempts_0 DELAY_SECONDS_def)
  show ?thesis
    using a b c f2 by (simp add: failed_attempts_0 numeral_2_eq_2)
qed

section \<open>The retry policy of the fetcher\<close>

text \<open>
  Claim C2. A fetch makes at least one and at most \<open>N_RETRIES = 10\<close> requests, all to the
  URL of the date. Its pauses are \<open>DELAY_SECONDS * 2 ^ i\<close> seconds for \<open>i = 0, 1, ...\<close> in
  this order, one after each attempt that did not end the fetch, so there are as many pauses
  as requests or one less. If all ten attempts are retryable, the trace is that of ten failed
  attempts followed by the warning, the pauses are 10, 20, 40, ..., 5120 seconds, and
  \<open>make_retry\<close> returns \<open>None\<close>. The caller then has no record for this date: the loop
  goes on with the next date, \<open>data\<close> and \<open>record\<close> unchanged.
\<close>

theorem fetcher_retry_policy:
  "(case make_retry net k u N_RETRIES DELAY_SECONDS of
      (tr, k', res) \<Rightarrow>
        requests tr = replicate (k' - k) u \<and> k < k' \<and> k' \<le> k + 10 \<and>
        sleeps tr = map (\<lambda>i. 10 * 2 ^ i) [0..<length (sleeps tr)] \<and>
        (length (sleeps tr) = k' - k \<or> Suc (length (sleeps tr)) = k' - k))
   \<and> ((\<forall>i<10. retryable (net (k + i) u)) \<longrightarrow>
        make_retry net k u N_RETRIES DELAY_SECONDS =
          (failed_attempts net k u 10 0 10 @ [LogWarning (FailedAfter 10)], k + 10, None) \<and>
        sleeps (fst (make_retry net k u N_RETRIES DELAY_SECONDS)) =
          [10, 20, 40, 80, 160, 320, 640, 1280, 2560, 5120] \<and>
        (fromisoformat dt s = Inr d \<and> fromisoformat dt b = Inr e \<and> date_le d e \<and>
         u = endpoint_of dt d \<and> day_after dt s = Inr nxt \<longrightarrow>
           sync_loop dt net cur b s k data rec =
             (case sync_loop dt net cur b nxt (k + 10) data rec of
                (tr', res) \<Rightarrow>
                  ([Sleep 2, LogInfo (DateToProcess s)] @ failed_attempts net k u 10 0 10 @
                   [LogWarning (FailedAfter 10)] @ tr', res))))"
proof -
  have shape: "case make_retry net k u N_RETRIES DELAY_SECONDS of
      (tr, k', res) \<Rightarrow>
        requests tr = replicate (k' - k) u \<and> k < k' \<and> k' \<le> k + 10 \<and>
        sleeps tr = map (\<lambda>i. 10 * 2 ^ i) [0..<length (sleeps tr)] \<and>
        (length (sleeps tr) = k' - k \<or> Suc (length (sleeps tr)) = k' - k)"
  proof -
    obtain j where j: "j \<le> N_RETRIES"
      and c: "j = N_RETRIES \<and>
         make_retry net k u N_RETRIES DELAY_SECONDS =
           (failed_attempts net k u DELAY_SECONDS 0 j @ [LogWarning (FailedAfter N_RETRIES)], k + j, None)
       \<or> j < N_RETRIES \<and> (\<exists>r. net (k + j) u = Responded r \<and> \<not> retryable (net (k + j) u) \<and>
           make_retry net k u N_RETRIES DELAY_SECONDS =
             (failed_attempts net k u DELAY_SECONDS 0 j @
                (if str_contains (resp_text r) MARKER
                 then [HttpGet u, LogWarning (ResponseText (resp_text r))] else [HttpGet u]),
              k + j + 1,
              if str_contains (resp_text r) MARKER then None else Some r))"
      by (rule make_retry_shape [of N_RETRIES net k u DELAY_SECONDS]) blast
    from c show ?thesis
    proof
      assume "j = N_RETRIES \<and>
         make_retry net k u N_RETRIES DELAY_SECONDS =
           (failed_attempts net k u DELAY_SECONDS 0 j @ [LogWarning (FailedAfter N_RETRIES)], k + j, None)"
      then show ?thesis
        by (simp add: failed_attempts_trace trace_simps N_RETRIES_def DELAY_SECONDS_def)
    next
      assume "j < N_RETRIES \<and> (\<exists>r. net (k + j) u = Responded r \<and> \<not> retryable (net (k + j) u) \<and>
           make_retry net k u N_RETRIES DELAY_SECONDS =
             (failed_attempts net k u DELAY_SECONDS 0 j @
                (if str_contains (resp_text r) MARKER
                 then [HttpGet u, LogWarning (ResponseText (resp_text r))] else [HttpGet u]),
              k + j + 1,
              if str_contains (resp_text r) MARKER then None else Some r))"
      then show ?thesis
        by (auto simp: failed_attempts_trace trace_simps N_RETRIES_def DELAY_SECONDS_def
            replicate_append_same)
    qed
  qed
  have exhausted: "(\<forall>i<10. retryable (net (k + i) u)) \<longrightarrow>
        make_retry net k u N_RETRIES DELAY_SECONDS =
          (failed_attempts net k u 10 0 10 @ [LogWarning (FailedAfter 10)], k + 10, None) \<and>
        sleeps (fst (make_retry net k u N_RETRIES DELAY_SECONDS)) =
          [10, 20, 40, 80, 160, 320, 640, 1280, 2560, 5120] \<and>
        (fromisoformat dt s = Inr d \<and> fromisoformat dt b = Inr e \<and> date_le d e \<and>
         u = endpoint_of dt d \<and> day_after dt s = Inr nxt \<longrightarrow>
           sync_loop dt net cur b s k data rec =
             (case sync_loop dt net cur b nxt (k + 10) data rec of
                (tr', res) \<Rightarrow>
                  ([Sleep 2, LogInfo (DateToProcess s)] @ failed_attempts net k u 10 0 10 @
                   [LogWarning (FailedAfter 10)] @ tr', res)))"
  proof (intro impI conjI)
    assume all: "\<forall>i<10. retryable (net (k + i) u)"
    show m: "make_retry net k u N_RETRIES DELAY_SECONDS =
          (failed_attempts net k u 10 0 10 @ [LogWarning (FailedAfter 10)], k + 10, None)"
      using make_retry_exhausted [of 10 net k u 10] all
      by (simp add: N_RETRIES_def DELAY_SECONDS_def)
    have "[0..<10] = [0, 1, 2, 3, 4, 5, 6, 7, 8, 9::nat]"
      by (simp add: upt_rec)
    then show "sleeps (fst (make_retry net k u N_RETRIES DELAY_SECONDS)) =
          [10, 20, 40, 80, 160, 320, 640, 1280, 2560, 5120]"
      by (simp add: m failed_attempts_trace trace_simps)
    assume day: "fromisoformat dt s = Inr d \<and> fromisoformat dt b = Inr e \<and> date_le d e \<and>
         u = endpoint_of dt d \<and> day_after dt s = Inr nxt"
    then have pd: "process_day dt net cur s k =
      ([Sleep 2, LogInfo (DateToProcess s)] @ failed_attempts net k u 10 0 10 @
        [LogWarning (FailedAfter 10)], k + 10, Inr None)"
      using process_day_fetch [of dt s d net k _ _ None cur] m
      by (simp add: build_record_def)
    from day have p: "fromisoformat dt s = Inr d" and q: "fromisoformat dt b = Inr e"
      and le: "date_le d e" and n: "day_after dt s = Inr nxt"
      by simp_all
    show "sync_loop dt net cur b s k data rec =
             (case sync_loop dt net cur b nxt (k + 10) data rec of
                (tr', res) \<Rightarrow>
                  ([Sleep 2, LogInfo (DateToProcess s)] @ failed_attempts net k u 10 0 10 @
                   [LogWarning (FailedAfter 10)] @ tr', res))"
      using sync_loop_step [OF p q le pd n, of data rec]
      by (simp split: prod.splits)
  qed
  from shape exhausted show ?thesis by (rule conjI)
qed

theorem fetcher_retry_policy_witness:
  "do_sync reference_datetime (\<lambda>k u. Raised ''down'') ''2023-10-05'' ''2023-10-05'' NotAList =
     ([LogWarning CurrenciesNotAList, Sleep 2, LogInfo (DateToProcess ''2023-10-05'')] @
      failed_attempts (\<lambda>k u. Raised ''down'') 0
        ''https://www.cbr-xml-daily.ru//archive//2023//10//05//daily_json.js'' 10 0 10 @
      [LogWarning (FailedAfter 10), LogInfo NothingDone], None)
   \<and> make_retry (\<lambda>k u. Raised ''down'') 0
        ''https://www.cbr-xml-daily.ru//archive//2023//10//05//daily_json.js''
        N_RETRIES DELAY_SECONDS =
       (failed_attempts (\<lambda>k u. Raised ''down'') 0
          ''https://www.cbr-xml-daily.ru//archive//2023//10//05//daily_json.js'' 10 0 10 @
        [LogWarning (FailedAfter 10)], 10, None)
   \<and> sleeps (fst (make_retry (\<lambda>k u. Raised ''down'') 0
        ''https://www.cbr-xml-daily.ru//archive//2023//10//05//daily_json.js''
        N_RETRIES DELAY_SECONDS)) = [10, 20, 40, 80, 160, 320, 640, 1280, 2560, 5120]
   \<and> requests (fst (make_retry (\<lambda>k u. Raised ''down'') 0
        ''https://www.cbr-xml-daily.ru//archive//2023//10//05//daily_json.js''
        N_RETRIES DELAY_SECONDS)) =
       replicate 10 ''https://www.cbr-xml-daily.ru//archive//2023//10//05//daily_json.js''"
proof -
  let ?net = "\<lambda>(k::nat) (u::string). Raised ''down''"
  let ?u = "''https://www.cbr-xml-daily.ru//archive//2023//10//05//daily_json.js''"
  let ?d = "\<lparr>year = 2023, month = 10, day = 5\<rparr>"
  have all: "\<forall>i<10. retryable (?net (0 + i) ?u)"
    by (simp add: retryable_def)
  have day: "fromisoformat reference_datetime ''2023-10-05'' = Inr ?d \<and>
      fromisoformat reference_datetime ''2023-10-05'' = Inr ?d \<and> date_le ?d ?d \<and>
      ?u = endpoint_of reference_datetime ?d \<and>
      day_after reference_datetime ''2023-10-05'' = Inr ''2023-10-06''"
    by (simp add: oct5 date_le_def)
  note t = fetcher_retry_policy [where net = ?net and k = 0 and u = ?u
      and dt = reference_datetime and s = "''2023-10-05''" and d = ?d and b = "''2023-10-05''"
      and e = ?d and nxt = "''2023-10-06''" and cur = None and data = "[]" and rec = None]
  from t all have m: "make_retry ?net 0 ?u N_RETRIES DELAY_SECONDS =
      (failed_attempts ?net 0 ?u 10 0 10 @ [LogWarning (FailedAfter 10)], 10, None)"
    by simp
  from t all have sl: "sleeps (fst (make_retry ?net 0 ?u N_RETRIES DELAY_SECONDS)) =
      [10, 20, 40, 80, 160, 320, 640, 1280, 2560, 5120]"
    by blast
  from t m have rq: "requests (fst (make_retry ?net 0 ?u N_RETRIES DELAY_SECONDS)) = replicate 10 ?u"
    by simp
  have stop: "sync_loop reference_datetime ?net None ''2023-10-05'' ''2023-10-06'' 10 [] None =
      ([], Inr ([], None))"
    by (rule sync_loop_stop [where d = "\<lparr>year = 2023, month = 10, day = 6\<rparr>" and e = ?d])
      (simp_all add: oct5 oct6 date_le_def)
  from t all day have "sync_loop reference_datetime ?net None ''2023-10-05'' ''2023-10-05'' 0 [] None =
      (case sync_loop reference_datetime ?net None ''2023-10-05'' ''2023-10-06'' (0 + 10) [] None of
         (tr', res) \<Rightarrow>
           ([Sleep 2, LogInfo (DateToProcess ''2023-10-05'')] @ failed_attempts ?net 0 ?u 10 0 10 @
            [LogWarning (FailedAfter 10)] @ tr', res))"
    by blast
  with stop have loop: "sync_loop reference_datetime ?net None ''2023-10-05'' ''2023-10-05'' 0 [] None =
      ([Sleep 2, LogInfo (DateToProcess ''2023-10-05'')] @ failed_attempts ?net 0 ?u 10 0 10 @
       [LogWarning (FailedAfter 10)], Inr ([], None))"
    by simp
  have run: "do_sync reference_datetime ?net ''2023-10-05'' ''2023-10-05'' NotAList =
     ([LogWarning CurrenciesNotAList, Sleep 2, LogInfo (DateToProcess ''2023-10-05'')] @
      failed_attempts ?net 0 ?u 10 0 10 @ [LogWarning (FailedAfter 10), LogInfo NothingDone], None)"
    by (simp add: do_sync_def check_currencies_def loop emit_all_def)
  from run m sl rq show ?thesis by simp
qed

section \<open>The state a run writes\<close>



section \<open>The schema a run writes\<close>



section \<open>A run without records\<close>

text \<open>
  Claim C7. When the loop has ended with no record in \<open>data\<close>, the run writes no schema,
  no record and no state, and all it does after the loop is to log the message that nothing
  was done. This is the case, for example, when no attempt of the run gets a response with
  status 200 and without the marker text, so that every fetch uses up its attempts or meets
  the marker: then the run ends in this way for every pair of dates from the year 1000 on
  with a stop date before 9999-12-31, in a library that reads back what it writes.
\<close>

theorem nothing_done:
  "(sync_loop dt net (snd (check_currencies c)) b a 0 [] None = (ltr, Inr ([], rec)) \<longrightarrow>
      do_sync dt net a b c = (fst (check_currencies c) # ltr @ [LogInfo NothingDone], None) \<and>
      outputs (fst (do_sync dt net a b c)) = [])
   \<and> ((\<forall>k u r. net k u = Responded r \<longrightarrow>
          status_code r \<noteq> 200 \<or> str_contains (resp_text r) MARKER) \<and>
       fromisoformat dt a = Inr s \<and> fromisoformat dt b = Inr e \<and>
       e \<noteq> \<lparr>year = 9999, month = 12, day = 31\<rparr> \<and> reads_back dt \<and> 1000 \<le> year s \<longrightarrow>
      (\<exists>ltr'. do_sync dt net a b c =
          (fst (check_currencies c) # ltr' @ [LogInfo NothingDone], None)) \<and>
      outputs (fst (do_sync dt net a b c)) = [])"
proof -
  let ?cur = "snd (check_currencies c)"
  have o0: "\<not> is_output (fst (check_currencies c))"
    by (cases c) (simp_all add: check_currencies_def is_output_def)
  have ended: "do_sync dt net a b c = (fst (check_currencies c) # tr @ [LogInfo NothingDone], None) \<and>
      outputs (fst (do_sync dt net a b c)) = []"
    if l: "sync_loop dt net ?cur b a 0 [] None = (tr, Inr ([], r))" for tr r
  proof -
    have run: "do_sync dt net a b c = (fst (check_currencies c) # tr @ [LogInfo NothingDone], None)"
      by (simp add: do_sync_ended [OF l] emit_all_nothing)
    have "outputs tr = []" using l by (rule sync_loop_quiet)
    with run o0 show ?thesis by (simp add: outputs_Cons is_output_def)
  qed
  have example: "(\<exists>ltr'. do_sync dt net a b c =
          (fst (check_currencies c) # ltr' @ [LogInfo NothingDone], None)) \<and>
      outputs (fst (do_sync dt net a b c)) = []"
    if quiet: "\<forall>k u r. net k u = Responded r \<longrightarrow>
          status_code r \<noteq> 200 \<or> str_contains (resp_text r) MARKER"
      and p: "fromisoformat dt a = Inr s" and q: "fromisoformat dt b = Inr e"
      and e: "e \<noteq> \<lparr>year = 9999, month = 12, day = 31\<rparr>" and rb: "reads_back dt"
      and y: "1000 \<le> year s"
  proof -
    from q have "valid_date e" by (rule fromisoformat_valid)
    then have emax: "toordinal e < MAXORDINAL" using e by (rule toordinal_less_max)
    have days: "\<exists>tr1 k2 new. process_day dt net ?cur s' k' = (tr1, k2, Inr new)"
      if "fromisoformat dt s' = Inr d'" for s' d' k'
      using process_day_no_data [OF quiet that, of ?cur k'] by blast
    have "\<exists>tr data' rec'. sync_loop dt net ?cur b a 0 [] None = (tr, Inr (data', rec'))"
      by (rule sync_loop_total [OF rb p q emax y]) (erule days)
    then obtain tr data' rec' where
      l: "sync_loop dt net ?cur b a 0 [] None = (tr, Inr (data', rec'))"
      by blast
    from sync_loop_data [OF l p q] obtain news where d: "data' = news"
      and from_day: "\<forall>r\<in>set news. \<exists>s' d' k1 tr1 k2. fromisoformat dt s' = Inr d' \<and>
        toordinal s \<le> toordinal d' \<and> toordinal d' \<le> toordinal e \<and>
        process_day dt net ?cur s' k1 = (tr1, k2, Inr (Some r))"
      by auto
    have "news = []"
    proof (rule ccontr)
      assume "news \<noteq> []"
      then obtain r where "r \<in> set news" by (cases news) auto
      with from_day obtain s' d' k1 tr1 k2 where p': "fromisoformat dt s' = Inr d'"
        and pd: "process_day dt net ?cur s' k1 = (tr1, k2, Inr (Some r))"
        by blast
      from process_day_no_data [OF quiet p', of ?cur k1] pd show False by auto
    qed
    with l d have "sync_loop dt net ?cur b a 0 [] None = (tr, Inr ([], rec'))" by simp
    from ended [OF this] show ?thesis by blast
  qed
  from ended example show ?thesis by blast
qed

theorem nothing_done_witness:
  "do_sync reference_datetime
      (\<lambda>k u. Responded \<lparr>status_code = 404, resp_text = MARKER, url = u, json_body = None\<rparr>)
      ''2023-10-05'' ''2023-10-06'' (PyList [''USD'']) =
     ([LogInfo (CurrenciesSpecified [''USD'']),
       Sleep 2, LogInfo (DateToProcess ''2023-10-05''),
       HttpGet ''https://www.cbr-xml-daily.ru//archive//2023//10//05//daily_json.js'',
       LogWarning (ResponseText MARKER),
       Sleep 2, LogInfo (DateToProcess ''2023-10-06''),
       HttpGet ''https://www.cbr-xml-daily.ru//archive//2023//10//06//daily_json.js'',
       LogWarning (ResponseText MARKER),
       LogInfo NothingDone], None)
   \<and> outputs (fst (do_sync reference_datetime
      (\<lambda>k u. Responded \<lparr>status_code = 404, resp_text = MARKER, url = u, json_body = None\<rparr>)
      ''2023-10-05'' ''2023-10-06'' (PyList [''USD'']))) = []"
proof -
  let ?net = "\<lambda>(k::nat) (u::string).
    Responded \<lparr>status_code = 404, resp_text = MARKER, url = u, json_body = None\<rparr>"
  let ?d5 = "\<lparr>year = 2023, month = 10, day = 5\<rparr>"
  let ?d6 = "\<lparr>year = 2023, month = 10, day = 6\<rparr>"
  let ?d7 = "\<lparr>year = 2023, month = 10, day = 7\<rparr>"
  let ?u5 = "''https://www.cbr-xml-daily.ru//archive//2023//10//05//daily_json.js''"
  let ?u6 = "''https://www.cbr-xml-daily.ru//archive//2023//10//06//daily_json.js''"
  have fetch: "make_retry ?net k u N_RETRIES DELAY_SECONDS =
      ([HttpGet u, LogWarning (ResponseText MARKER)], Suc k, None)" for k u
    using make_retry_first(1) [of ?net k u _ N_RETRIES DELAY_SECONDS]
    by (simp add: str_contains_self N_RETRIES_def del: str_contains.simps)
  have l7: "sync_loop reference_datetime ?net (Some [''USD'']) ''2023-10-06'' ''2023-10-07'' 2 [] None =
      ([], Inr ([], None))"
    by (rule sync_loop_stop [where d = ?d7 and e = ?d6]) (simp_all add: oct6 oct7 date_le_def)
  have l6: "sync_loop reference_datetime ?net (Some [''USD'']) ''2023-10-06'' ''2023-10-06'' (Suc 0) [] None =
      ([Sleep 2, LogInfo (DateToProcess ''2023-10-06'')] @
       [HttpGet ?u6, LogWarning (ResponseText MARKER)] @ [], Inr ([], None))"
    by (rule sync_loop_day [where d = ?d6 and e = ?d6 and new = None and k' = 2
          and response = None and nxt = "''2023-10-07''"])
      (simp_all add: oct6 date_le_def fetch build_record_def l7)
  have l5: "sync_loop reference_datetime ?net (Some [''USD'']) ''2023-10-06'' ''2023-10-05'' 0 [] None =
      ([Sleep 2, LogInfo (DateToProcess ''2023-10-05'')] @
       [HttpGet ?u5, LogWarning (ResponseText MARKER)] @
       [Sleep 2, LogInfo (DateToProcess ''2023-10-06''),
        HttpGet ?u6, LogWarning (ResponseText MARKER)], Inr ([], None))"
    by (rule sync_loop_day [where d = ?d5 and e = ?d6 and new = None and k' = "Suc 0"
          and response = None and nxt = "''2023-10-06''"])
      (simp_all add: oct5 oct6 date_le_def fetch build_record_def l6)
  note t = nothing_done [where dt = reference_datetime and net = ?net and a = "''2023-10-05''"
      and b = "''2023-10-06''" and c = "PyList [''USD'']" and s = ?d5 and e = ?d6
      and rec = None
      and ltr = "[Sleep 2, LogInfo (DateToProcess ''2023-10-05''),
        HttpGet ?u5, LogWarning (ResponseText MARKER),
        Sleep 2, LogInfo (DateToProcess ''2023-10-06''),
        HttpGet ?u6, LogWarning (ResponseText MARKER)]"]
  from t l5 have run: "do_sync reference_datetime ?net ''2023-10-05'' ''2023-10-06'' (PyList [''USD'']) =
     ([LogInfo (CurrenciesSpecified [''USD'']),
       Sleep 2, LogInfo (DateToProcess ''2023-10-05''), HttpGet ?u5, LogWarning (ResponseText MARKER),
       Sleep 2, LogInfo (DateToProcess ''2023-10-06''), HttpGet ?u6, LogWarning (ResponseText MARKER),
       LogInfo NothingDone], None)"
    by (simp add: check_currencies_def)
  have quiet: "\<forall>k u r. ?net k u = Responded r \<longrightarrow>
          status_code r \<noteq> 200 \<or> str_contains (resp_text r) MARKER"
    by auto
  from t quiet have "outputs (fst (do_sync reference_datetime ?net ''2023-10-05'' ''2023-10-06''
      (PyList [''USD'']))) = []"
    by (simp add: oct5 oct6 reads_back_reference)
  with run show ?thesis by simp
qed

section \<open>The dates in the state\<close>



end
